theory Spec2Isabelle
  imports Complex_Main
begin

section \<open>Streaming anomaly detection server: the detectors of server.py\<close>

text \<open>
  The embedding follows \<^verbatim>\<open>server.py\<close>: the class \<^verbatim>\<open>ADWIN\<close>, the class
  \<^verbatim>\<open>AnomalyDetector\<close> and the receive loop of \<^verbatim>\<open>start_server\<close>.

  Python floats are modelled as \<^typ>\<open>real\<close>: arithmetic is exact, there is no rounding, no
  overflow and no \<^verbatim>\<open>nan\<close> or \<^verbatim>\<open>inf\<close>. Python integers (bucket sizes, the window
  width) are \<^typ>\<open>int\<close>. A method that mutates its object takes the object and returns the
  new one. An exception is a value: a method returns \<open>Inl (e, s)\<close> when it raises \<open>e\<close> and
  leaves the object in state \<open>s\<close>, and \<open>Inr\<close> of its result and the new state otherwise.
\<close>

datatype py_error =
  ZeroDivisionError | ValueError | IndexError | OverflowError | UnicodeDecodeError

subsection \<open>ADWIN\<close>

record adwin_state =
  delta :: real
  bucket_row :: "real list"
  bucket_sizes :: "int list"
  total :: real
  variance :: real
  width :: int

text \<open>\<^verbatim>\<open>ADWIN.__init__(delta)\<close>; the default is \<^verbatim>\<open>delta=0.002\<close>.\<close>

definition new_adwin :: "real \<Rightarrow> adwin_state" where
  "new_adwin d =
     \<lparr>delta = d, bucket_row = [], bucket_sizes = [], total = 0, variance = 0, width = 0\<rparr>"

definition default_delta :: real where
  "default_delta = 2 / 1000"

definition insert_element :: "adwin_state \<Rightarrow> real \<Rightarrow> adwin_state" where
  "insert_element s v =
     s\<lparr>width := width s + 1,
       total := total s + v,
       variance := variance s + v * v,
       bucket_row := bucket_row s @ [v],
       bucket_sizes := bucket_sizes s @ [1]\<rparr>"

text \<open>
  The inner loop of \<^verbatim>\<open>compress_buckets\<close>:
  \<^verbatim>\<open>while k < len(sizes) and sizes[i] == sizes[k]: k += 1\<close>, returning the final \<open>k\<close>.
\<close>

function scan_run :: "int list \<Rightarrow> nat \<Rightarrow> nat \<Rightarrow> nat" where
  "scan_run sizes i k =
     (if k < length sizes \<and> sizes ! i = sizes ! k then scan_run sizes i (Suc k) else k)"
  by pat_completeness auto
termination
  by (relation "measure (\<lambda>(sizes, i, k). length sizes - k)") auto

declare scan_run.simps [simp del]

text \<open>
  The outer loop of \<^verbatim>\<open>compress_buckets\<close>, on the two lists and the index \<open>i\<close>. The
  statement \<^verbatim>\<open>i += 1\<close> after the \<^verbatim>\<open>if\<close> runs in both branches, so a run of length one
  moves \<open>i\<close> to \<open>k + 1\<close>. The assignment \<^verbatim>\<open>self.bucket_row[i] = new_bucket\<close> raises
  \<^verbatim>\<open>IndexError\<close> when the row is too short; slices and \<^verbatim>\<open>del\<close> of a slice truncate.
\<close>

function compress_loop ::
  "real list \<Rightarrow> int list \<Rightarrow> nat \<Rightarrow>
     (py_error \<times> real list \<times> int list) + (real list \<times> int list)" where
  "compress_loop row sizes i =
     (if i < length sizes then
        (let k = scan_run sizes i i in
         if k = i + 1 then compress_loop row sizes (k + 1)
         else
           (let new_bucket = sum_list (take (k - i) (drop i row)) / real (k - i) in
            if i < length row then
              (let row1 = row[i := new_bucket];
                   sizes1 = sizes[i := sizes ! i * int (k - i)]
               in compress_loop (take (i + 1) row1 @ drop k row1)
                                (take (i + 1) sizes1 @ drop k sizes1) (i + 1))
            else Inl (IndexError, row, sizes)))
      else Inr (row, sizes))"
  by pat_completeness auto
termination
proof (relation "measure (\<lambda>(row, sizes, i). length sizes - i)", goal_cases)
  case 1
  show ?case by simp
next
  case (2 row sizes i k)
  then show ?case by simp
next
  case (3 row sizes i k new_bucket row1 sizes1)
  have ge: "j \<le> scan_run xs a j" for xs a j
  proof (induction xs a j rule: scan_run.induct)
    case (1 xs a j)
    show ?case
    proof (cases "j < length xs \<and> xs ! a = xs ! j")
      case True
      then have eq: "scan_run xs a j = scan_run xs a (Suc j)"
        by (subst scan_run.simps) auto
      from 1 True have "Suc j \<le> scan_run xs a (Suc j)" by blast
      with eq show ?thesis by linarith
    next
      case False
      then have "scan_run xs a j = j"
        by (subst scan_run.simps) auto
      then show ?thesis by simp
    qed
  qed
  have le: "j \<le> length xs \<Longrightarrow> scan_run xs a j \<le> length xs" for xs a j
  proof (induction xs a j rule: scan_run.induct)
    case (1 xs a j)
    show ?case
    proof (cases "j < length xs \<and> xs ! a = xs ! j")
      case True
      then have eq: "scan_run xs a j = scan_run xs a (Suc j)"
        by (subst scan_run.simps) auto
      from 1 True have "scan_run xs a (Suc j) \<le> length xs" by simp
      with eq show ?thesis by linarith
    next
      case False
      then have "scan_run xs a j = j"
        by (subst scan_run.simps) auto
      with 1 show ?thesis by simp
    qed
  qed
  from 3 have "scan_run sizes i i = scan_run sizes i (Suc i)"
    by (subst scan_run.simps) auto
  with ge [of "Suc i" sizes i] le [of i sizes i] 3
  have "Suc i \<le> k" "k \<le> length sizes" "k \<noteq> Suc i"
    by simp_all
  with 3 show ?case by simp
qed

declare compress_loop.simps [simp del]

definition compress_buckets ::
  "adwin_state \<Rightarrow> (py_error \<times> adwin_state) + adwin_state" where
  "compress_buckets s =
     (case compress_loop (bucket_row s) (bucket_sizes s) 0 of
        Inl (e, row, sizes) \<Rightarrow> Inl (e, s\<lparr>bucket_row := row, bucket_sizes := sizes\<rparr>)
      | Inr (row, sizes) \<Rightarrow> Inr (s\<lparr>bucket_row := row, bucket_sizes := sizes\<rparr>))"

text \<open>\<^verbatim>\<open>sum(x * y for x, y in zip(xs, ys))\<close> and \<^verbatim>\<open>sum(x * x * y for x, y in zip(xs, ys))\<close>.\<close>

definition weighted_sum :: "real list \<Rightarrow> int list \<Rightarrow> real" where
  "weighted_sum xs ys = sum_list (map (\<lambda>(x, y). x * of_int y) (zip xs ys))"

definition weighted_squares :: "real list \<Rightarrow> int list \<Rightarrow> real" where
  "weighted_squares xs ys = sum_list (map (\<lambda>(x, y). x * x * of_int y) (zip xs ys))"

text \<open>
  One iteration of the loop of \<^verbatim>\<open>detect_change\<close>, up to the comparison: the result is
  whether \<^verbatim>\<open>abs(u0 - u1) > eps\<close> (\<open>False\<close> for a skipped split). The division
  \<^verbatim>\<open>1 / (1 / n0 + 1 / n1)\<close> and \<^verbatim>\<open>4 / self.delta\<close> raise \<^verbatim>\<open>ZeroDivisionError\<close> on a zero
  divisor; \<^verbatim>\<open>math.log\<close> and \<^verbatim>\<open>math.sqrt\<close> raise \<^verbatim>\<open>ValueError\<close> outside their domain.
\<close>

definition split_check :: "adwin_state \<Rightarrow> nat \<Rightarrow> py_error + bool" where
  "split_check s i =
     (let n0 = sum_list (take i (bucket_sizes s));
          n1 = sum_list (drop i (bucket_sizes s))
      in if n0 = 0 \<or> n1 = 0 then Inr False
         else
           (let u0 = weighted_sum (take i (bucket_row s)) (take i (bucket_sizes s)) / of_int n0;
                u1 = weighted_sum (drop i (bucket_row s)) (drop i (bucket_sizes s)) / of_int n1
            in if 1 / real_of_int n0 + 1 / real_of_int n1 = 0 then Inl ZeroDivisionError
               else
                 (let m = 1 / (1 / real_of_int n0 + 1 / real_of_int n1)
                  in if delta s = 0 then Inl ZeroDivisionError
                     else if 4 / delta s \<le> 0 then Inl ValueError
                     else
                       (let r = 2 * m * ln (4 / delta s) / of_int n0 / of_int n1
                        in if r < 0 then Inl ValueError
                           else Inr (\<bar>u0 - u1\<bar> > sqrt r)))))"

text \<open>The body of \<^verbatim>\<open>if abs(u0 - u1) > eps\<close>: the window is cut at split point \<open>i\<close>.\<close>

definition shrink :: "adwin_state \<Rightarrow> nat \<Rightarrow> adwin_state" where
  "shrink s i =
     s\<lparr>width := sum_list (drop i (bucket_sizes s)),
       total := weighted_sum (drop i (bucket_row s)) (drop i (bucket_sizes s)),
       variance := weighted_squares (drop i (bucket_row s)) (drop i (bucket_sizes s)),
       bucket_row := drop i (bucket_row s),
       bucket_sizes := drop i (bucket_sizes s)\<rparr>"

text \<open>The loop \<^verbatim>\<open>for i in range(1, len(self.bucket_sizes))\<close> over the remaining split points.\<close>

fun detect_scan ::
  "adwin_state \<Rightarrow> nat list \<Rightarrow> (py_error \<times> adwin_state) + (bool \<times> adwin_state)" where
  "detect_scan s [] = Inr (False, s)"
| "detect_scan s (i # js) =
     (case split_check s i of
        Inl e \<Rightarrow> Inl (e, s)
      | Inr True \<Rightarrow> Inr (True, shrink s i)
      | Inr False \<Rightarrow> detect_scan s js)"

definition detect_change ::
  "adwin_state \<Rightarrow> (py_error \<times> adwin_state) + (bool \<times> adwin_state)" where
  "detect_change s = detect_scan s [1..<length (bucket_sizes s)]"

definition update ::
  "adwin_state \<Rightarrow> real \<Rightarrow> (py_error \<times> adwin_state) + (bool \<times> adwin_state)" where
  "update s v =
     (case compress_buckets (insert_element s v) of
        Inl e \<Rightarrow> Inl e
      | Inr s' \<Rightarrow> detect_change s')"

text \<open>A sequence of \<^verbatim>\<open>update\<close> calls on one detector: the flags returned, in order, and the
  final state; the first exception ends the sequence.\<close>

fun adwin_run ::
  "adwin_state \<Rightarrow> real list \<Rightarrow> (py_error \<times> adwin_state) + (bool list \<times> adwin_state)" where
  "adwin_run s [] = Inr ([], s)"
| "adwin_run s (v # vs) =
     (case update s v of
        Inl e \<Rightarrow> Inl e
      | Inr (b, s') \<Rightarrow>
          (case adwin_run s' vs of
             Inl e \<Rightarrow> Inl e
           | Inr (bs, s'') \<Rightarrow> Inr (b # bs, s'')))"

subsection \<open>AnomalyDetector\<close>

text \<open>
  \<^verbatim>\<open>self.window\<close> is a \<^verbatim>\<open>deque(maxlen=window_size)\<close>: the list of its items, oldest
  first, and its \<^verbatim>\<open>maxlen\<close> (a natural number: a negative \<^verbatim>\<open>window_size\<close> is refused by
  the constructor).
\<close>

record anomaly_detector =
  adwin :: adwin_state
  window :: "real list"
  maxlen :: nat
  z_threshold :: real

text \<open>\<^verbatim>\<open>AnomalyDetector.__init__(window_size, z_threshold)\<close>; it always builds \<^verbatim>\<open>ADWIN()\<close>.\<close>

definition new_detector :: "nat \<Rightarrow> real \<Rightarrow> anomaly_detector" where
  "new_detector window_size z =
     \<lparr>adwin = new_adwin default_delta, window = [], maxlen = window_size, z_threshold = z\<rparr>"

text \<open>\<^verbatim>\<open>deque.append\<close> on a bounded deque: items beyond \<^verbatim>\<open>maxlen\<close> fall off the left end.\<close>

definition deque_append :: "nat \<Rightarrow> real list \<Rightarrow> real \<Rightarrow> real list" where
  "deque_append n w v = drop (length (w @ [v]) - n) (w @ [v])"

definition detect_anomaly ::
  "anomaly_detector \<Rightarrow> real \<Rightarrow>
     (py_error \<times> anomaly_detector) + ((bool \<times> bool) \<times> anomaly_detector)" where
  "detect_anomaly d v =
     (let w = deque_append (maxlen d) (window d) v;
          d1 = d\<lparr>window := w\<rparr>
      in case update (adwin d) v of
           Inl (e, a) \<Rightarrow> Inl (e, d1\<lparr>adwin := a\<rparr>)
         | Inr (change_detected, a) \<Rightarrow>
             (let d2 = d1\<lparr>adwin := a\<rparr>
              in if length w < maxlen d then Inr ((False, change_detected), d2)
                 else if length w = 0 then Inl (ZeroDivisionError, d2)
                 else
                   (let mean = sum_list w / real (length w);
                        var = sum_list (map (\<lambda>x. (x - mean) ^ 2) w) / real (length w);
                        std_dev = (if var > 1 / 1000000 then sqrt var else 1 / 1000000);
                        z_score = \<bar>(v - mean) / std_dev\<bar>
                    in Inr ((z_score > z_threshold d, change_detected), d2))))"


subsection \<open>The receive loop of start_server\<close>

text \<open>
  A payload is the text \<^verbatim>\<open>data\<close> that \<^verbatim>\<open>recv(1024).decode('utf-8')\<close> returned. Python's
  \<^verbatim>\<open>float(data)\<close> is the parameter \<open>parse\<close> (\<open>None\<close> when it raises \<^verbatim>\<open>ValueError\<close>), and
  the text that an f-string gives a float is the parameter \<open>fmt\<close>.
\<close>

definition response :: "(real \<Rightarrow> string) \<Rightarrow> bool \<Rightarrow> bool \<Rightarrow> real \<Rightarrow> string" where
  "response fmt is_anomaly concept_drift data_point =
     (if is_anomaly then ''Anomaly detected: '' @ fmt data_point
      else if concept_drift then ''Concept drift detected: '' @ fmt data_point
      else ''Data received: '' @ fmt data_point)"

text \<open>
  How a session ends: \<open>Closed\<close> after the \<^verbatim>\<open>break\<close> (both sockets are closed), \<open>Crashed\<close>
  when an exception leaves \<^verbatim>\<open>start_server\<close>, \<open>Waiting\<close> when every payload given has been
  answered and \<^verbatim>\<open>recv\<close> blocks for the next one.
\<close>

datatype session_end = Closed | Waiting | Crashed py_error

text \<open>The \<^verbatim>\<open>while True\<close> loop on the payloads received, in order: the replies sent and how
  the session ends. The \<^verbatim>\<open>except ValueError\<close> clause also catches a \<^verbatim>\<open>ValueError\<close> raised
  inside \<^verbatim>\<open>detect_anomaly\<close>.\<close>

fun serve ::
  "(string \<Rightarrow> real option) \<Rightarrow> (real \<Rightarrow> string) \<Rightarrow> anomaly_detector \<Rightarrow> string list \<Rightarrow>
     string list \<times> session_end" where
  "serve parse fmt d [] = ([], Waiting)"
| "serve parse fmt d (data # rest) =
     (if data = [] \<or> data = ''exit'' then ([], Closed)
      else
        (case parse data of
           None \<Rightarrow>
             (let (replies, e) = serve parse fmt d rest in (''Invalid data'' # replies, e))
         | Some data_point \<Rightarrow>
             (case detect_anomaly d data_point of
                Inl (err, d') \<Rightarrow>
                  (if err = ValueError
                   then (let (replies, e) = serve parse fmt d' rest
                         in (''Invalid data'' # replies, e))
                   else ([], Crashed err))
              | Inr ((is_anomaly, concept_drift), d') \<Rightarrow>
                  (let (replies, e) = serve parse fmt d' rest
                   in (response fmt is_anomaly concept_drift data_point # replies, e)))))"

text \<open>\<^verbatim>\<open>start_server\<close> after \<^verbatim>\<open>accept\<close>: the loop on a fresh \<^verbatim>\<open>AnomalyDetector()\<close>.\<close>

definition start_server ::
  "(string \<Rightarrow> real option) \<Rightarrow> (real \<Rightarrow> string) \<Rightarrow> string list \<Rightarrow> string list \<times> session_end" where
  "start_server parse fmt payloads = serve parse fmt (new_detector 50 3) payloads"

section \<open>The statements of the specification\<close>

text \<open>
  A detector state is well formed when every bucket size is positive and the confidence
  parameter lies in \<open>(0, 4]\<close>, where \<^verbatim>\<open>math.log(4 / delta)\<close> is defined and not negative.
\<close>

definition well_formed :: "adwin_state \<Rightarrow> bool" where
  "well_formed s \<longleftrightarrow> (\<forall>x\<in>set (bucket_sizes s). 0 < x) \<and> 0 < delta s \<and> delta s \<le> 4"

text \<open>
  The two lists describe the same buckets, every size is positive, and the width and the total
  are those of the bucket list.
\<close>

definition bucket_inv :: "adwin_state \<Rightarrow> bool" where
  "bucket_inv s \<longleftrightarrow>
     length (bucket_row s) = length (bucket_sizes s)
     \<and> (\<forall>x\<in>set (bucket_sizes s). 0 < x)
     \<and> width s = sum_list (bucket_sizes s)
     \<and> total s = weighted_sum (bucket_row s) (bucket_sizes s)"

text \<open>
  The quantities of the split test as the specification words them: \<open>n0\<close> and \<open>n1\<close> are the
  sums of the sizes before and from split point \<open>i\<close>, \<open>u0\<close> and \<open>u1\<close> the weighted means of the
  two sides, \<open>m = 1 / (1/n0 + 1/n1)\<close> and \<open>eps = sqrt (2 * m * ln (4 / delta) / n0 / n1)\<close>.
\<close>

definition spec_n0 :: "adwin_state \<Rightarrow> nat \<Rightarrow> real" where
  "spec_n0 s i = of_int (sum_list (take i (bucket_sizes s)))"

definition spec_n1 :: "adwin_state \<Rightarrow> nat \<Rightarrow> real" where
  "spec_n1 s i = of_int (sum_list (drop i (bucket_sizes s)))"

definition spec_u0 :: "adwin_state \<Rightarrow> nat \<Rightarrow> real" where
  "spec_u0 s i = weighted_sum (take i (bucket_row s)) (take i (bucket_sizes s)) / spec_n0 s i"

definition spec_u1 :: "adwin_state \<Rightarrow> nat \<Rightarrow> real" where
  "spec_u1 s i = weighted_sum (drop i (bucket_row s)) (drop i (bucket_sizes s)) / spec_n1 s i"

definition spec_m :: "adwin_state \<Rightarrow> nat \<Rightarrow> real" where
  "spec_m s i = 1 / (1 / spec_n0 s i + 1 / spec_n1 s i)"

definition spec_eps :: "adwin_state \<Rightarrow> nat \<Rightarrow> real" where
  "spec_eps s i = sqrt (2 * spec_m s i * ln (4 / delta s) / spec_n0 s i / spec_n1 s i)"

definition spec_fires :: "adwin_state \<Rightarrow> nat \<Rightarrow> bool" where
  "spec_fires s i \<longleftrightarrow> \<bar>spec_u0 s i - spec_u1 s i\<bar> > spec_eps s i"

text \<open>
  Consistency of the aggregate fields with the bucket list, as the specification words it:
  the width is the sum of the sizes, the total the sum of the values weighted by size, the
  variance the sum of the squared values weighted by size.
\<close>

definition width_consistent :: "adwin_state \<Rightarrow> bool" where
  "width_consistent s \<longleftrightarrow> width s = sum_list (bucket_sizes s)"

definition total_consistent :: "adwin_state \<Rightarrow> bool" where
  "total_consistent s \<longleftrightarrow> total s = weighted_sum (bucket_row s) (bucket_sizes s)"

definition variance_consistent :: "adwin_state \<Rightarrow> bool" where
  "variance_consistent s \<longleftrightarrow> variance s = weighted_squares (bucket_row s) (bucket_sizes s)"

definition spec_consistent :: "adwin_state \<Rightarrow> bool" where
  "spec_consistent s \<longleftrightarrow> width_consistent s \<and> total_consistent s \<and> variance_consistent s"

text \<open>The window statistics of the Z-score test as the specification words them: the
  arithmetic mean, the population variance, and the standard deviation with its floor.\<close>

definition spec_mean :: "real list \<Rightarrow> real" where
  "spec_mean w = sum_list w / real (length w)"

definition spec_population_variance :: "real list \<Rightarrow> real" where
  "spec_population_variance w =
     sum_list (map (\<lambda>x. (x - spec_mean w) ^ 2) w) / real (length w)"

definition spec_std_dev :: "real list \<Rightarrow> real" where
  "spec_std_dev w =
     (if spec_population_variance w > 1 / 1000000 then sqrt (spec_population_variance w)
      else 1 / 1000000)"

text \<open>The drift detector inside an anomaly detector satisfies the bucket invariant and its
  confidence parameter lies in \<open>(0, 4]\<close>.\<close>

definition detector_inv :: "anomaly_detector \<Rightarrow> bool" where
  "detector_inv d \<longleftrightarrow>
     bucket_inv (adwin d) \<and> 0 < delta (adwin d) \<and> delta (adwin d) \<le> 4"

text \<open>A payload that ends the session: the empty text or \<^verbatim>\<open>exit\<close>.\<close>

definition terminator :: "string \<Rightarrow> bool" where
  "terminator data \<longleftrightarrow> data = [] \<or> data = ''exit''"

section \<open>The inner loop of compress_buckets\<close>

lemma scan_run_ge: "k \<le> scan_run sizes i k"
proof (induction sizes i k rule: scan_run.induct)
  case (1 sizes i k)
  show ?case
  proof (cases "k < length sizes \<and> sizes ! i = sizes ! k")
    case True
    then have eq: "scan_run sizes i k = scan_run sizes i (Suc k)"
      by (subst scan_run.simps) auto
    from 1 True have "Suc k \<le> scan_run sizes i (Suc k)" by blast
    with eq show ?thesis by linarith
  next
    case False
    then have "scan_run sizes i k = k"
      by (subst scan_run.simps) auto
    then show ?thesis by simp
  qed
qed

lemma scan_run_le: "k \<le> length sizes \<Longrightarrow> scan_run sizes i k \<le> length sizes"
proof (induction sizes i k rule: scan_run.induct)
  case (1 sizes i k)
  show ?case
  proof (cases "k < length sizes \<and> sizes ! i = sizes ! k")
    case True
    then have eq: "scan_run sizes i k = scan_run sizes i (Suc k)"
      by (subst scan_run.simps) auto
    from 1 True have "scan_run sizes i (Suc k) \<le> length sizes" by simp
    with eq show ?thesis by linarith
  next
    case False
    then have "scan_run sizes i k = k"
      by (subst scan_run.simps) auto
    with 1 show ?thesis by simp
  qed
qed

lemma scan_run_start: "i < length sizes \<Longrightarrow> Suc i \<le> scan_run sizes i i"
proof -
  assume "i < length sizes"
  then have "scan_run sizes i i = scan_run sizes i (Suc i)"
    by (subst scan_run.simps) auto
  with scan_run_ge [of "Suc i" sizes i] show ?thesis by simp
qed

lemma scan_run_equal: "k \<le> j \<Longrightarrow> j < scan_run sizes i k \<Longrightarrow> sizes ! j = sizes ! i"
proof (induction sizes i k rule: scan_run.induct)
  case (1 sizes i k)
  show ?case
  proof (cases "k < length sizes \<and> sizes ! i = sizes ! k")
    case True
    then have eq: "scan_run sizes i k = scan_run sizes i (Suc k)"
      by (subst scan_run.simps) auto
    show ?thesis
    proof (cases "j = k")
      case True
      with \<open>k < length sizes \<and> sizes ! i = sizes ! k\<close> show ?thesis by simp
    next
      case False
      with "1.prems" have "Suc k \<le> j" by simp
      moreover from "1.prems" eq have "j < scan_run sizes i (Suc k)" by simp
      ultimately show ?thesis using "1.IH" True by blast
    qed
  next
    case False
    then have "scan_run sizes i k = k"
      by (subst scan_run.simps) auto
    with "1.prems" show ?thesis by simp
  qed
qed

lemma run_replicate:
  assumes "i < length sizes" and "k = scan_run sizes i i"
  shows "take (k - i) (drop i sizes) = replicate (k - i) (sizes ! i)"
proof (rule nth_equalityI)
  have kb: "k \<le> length sizes" using assms scan_run_le [of i sizes i] by simp
  then show "length (take (k - i) (drop i sizes)) = length (replicate (k - i) (sizes ! i))"
    by simp
  fix j assume "j < length (take (k - i) (drop i sizes))"
  then have j: "j < k - i" by simp
  then have "i + j < scan_run sizes i i" using assms by simp
  then have "sizes ! (i + j) = sizes ! i" using scan_run_equal [of i "i + j" sizes i] by simp
  with j kb show "take (k - i) (drop i sizes) ! j = replicate (k - i) (sizes ! i) ! j"
    by simp
qed

lemma split3:
  "i \<le> k \<Longrightarrow> xs = take i xs @ take (k - i) (drop i xs) @ drop k xs"
proof -
  assume "i \<le> k"
  then have "drop i xs = take (k - i) (drop i xs) @ drop k xs"
    by (metis append_take_drop_id drop_drop le_add_diff_inverse2)
  then show ?thesis by (metis append_take_drop_id)
qed

lemma merge_form:
  "i < length xs \<Longrightarrow> i < k \<Longrightarrow>
     take (i + 1) (xs[i := v]) @ drop k (xs[i := v]) = take i xs @ v # drop k xs"
  by (simp add: take_Suc_conv_app_nth)

lemma weighted_sum_append:
  "length xs = length ys \<Longrightarrow>
     weighted_sum (xs @ xs') (ys @ ys') = weighted_sum xs ys + weighted_sum xs' ys'"
  by (simp add: weighted_sum_def)

lemma weighted_sum_Cons: "weighted_sum (x # xs) (y # ys) = x * of_int y + weighted_sum xs ys"
  by (simp add: weighted_sum_def)

lemma weighted_sum_Nil: "weighted_sum [] ys = 0" "weighted_sum xs [] = 0"
  by (simp_all add: weighted_sum_def)

lemma weighted_sum_replicate:
  "length xs = n \<Longrightarrow> weighted_sum xs (replicate n c) = sum_list xs * of_int c"
proof (induction xs arbitrary: n)
  case Nil
  then show ?case by (simp add: weighted_sum_def)
next
  case (Cons x xs)
  then obtain m where "n = Suc m" "length xs = m" by (cases n) auto
  with Cons.IH [of m] show ?case by (simp add: weighted_sum_Cons algebra_simps)
qed

lemma weighted_sum_const:
  "length xs = length ys \<Longrightarrow> \<forall>x\<in>set xs. x = c \<Longrightarrow>
     weighted_sum xs ys = c * of_int (sum_list ys)"
proof (induction xs ys rule: list_induct2)
  case Nil
  then show ?case by (simp add: weighted_sum_def)
next
  case (Cons x xs y ys)
  then show ?case by (simp add: weighted_sum_Cons algebra_simps)
qed

section \<open>What compress_buckets keeps\<close>

lemma compress_loop_inv:
  assumes step: "\<And>row sizes i k. length row = length sizes \<Longrightarrow> P row sizes \<Longrightarrow>
      i < length sizes \<Longrightarrow> k = scan_run sizes i i \<Longrightarrow> Suc i < k \<Longrightarrow>
      P (take i row @ (sum_list (take (k - i) (drop i row)) / real (k - i)) # drop k row)
        (take i sizes @ (sizes ! i * int (k - i)) # drop k sizes)"
  shows "length row = length sizes \<Longrightarrow> P row sizes \<Longrightarrow>
     \<exists>row' sizes'. compress_loop row sizes i = Inr (row', sizes')
        \<and> length row' = length sizes' \<and> P row' sizes'"
proof (induction row sizes i rule: compress_loop.induct)
  case (1 row sizes i)
  show ?case
  proof (cases "i < length sizes")
    case False
    then have "compress_loop row sizes i = Inr (row, sizes)"
      by (subst compress_loop.simps) simp
    with 1 show ?thesis by simp
  next
    case True
    define k where "k = scan_run sizes i i"
    have kb: "Suc i \<le> k" "k \<le> length sizes"
      using scan_run_start [OF True] scan_run_le [of i sizes i] True by (simp_all add: k_def)
    show ?thesis
    proof (cases "k = i + 1")
      case k1: True
      then have "compress_loop row sizes i = compress_loop row sizes (k + 1)"
        using True by (subst compress_loop.simps) (simp add: k_def Let_def)
      moreover have "\<exists>row' sizes'. compress_loop row sizes (k + 1) = Inr (row', sizes')
          \<and> length row' = length sizes' \<and> P row' sizes'"
        using "1.IH"(1) [OF True k_def k1] "1.prems" by simp
      ultimately show ?thesis by simp
    next
      case k2: False
      with kb have lt: "Suc i < k" by simp
      let ?nb = "sum_list (take (k - i) (drop i row)) / real (k - i)"
      let ?row' = "take i row @ ?nb # drop k row"
      let ?sizes' = "take i sizes @ (sizes ! i * int (k - i)) # drop k sizes"
      have ir: "i < length row" using True "1.prems" by simp
      have eqr: "take (i + 1) (row[i := ?nb]) @ drop k (row[i := ?nb]) = ?row'"
        using merge_form [of i row k] ir lt by simp
      have eqs: "take (i + 1) (sizes[i := sizes ! i * int (k - i)])
                   @ drop k (sizes[i := sizes ! i * int (k - i)]) = ?sizes'"
        using merge_form [of i sizes k] True lt by simp
      have unf: "compress_loop row sizes i = compress_loop ?row' ?sizes' (i + 1)"
        using True k2 ir eqr eqs by (subst compress_loop.simps) (simp add: k_def [symmetric] Let_def)
      have len: "length ?row' = length ?sizes'" using "1.prems" by simp
      have P': "P ?row' ?sizes'"
        using step [OF "1.prems"(1) "1.prems"(2) True k_def lt] .
      have "\<exists>row' sizes'. compress_loop ?row' ?sizes' (i + 1) = Inr (row', sizes')
          \<and> length row' = length sizes' \<and> P row' sizes'"
        using "1.IH"(2) [OF True k_def k2 refl ir refl refl, unfolded eqr eqs, OF len P'] .
      with unf show ?thesis by simp
    qed
  qed
qed

text \<open>What one merge of a run keeps.\<close>

lemma merge_keeps:
  assumes len: "length row = length sizes" and i: "i < length sizes"
    and k: "k = scan_run sizes i i" and lt: "Suc i < k"
  defines "nb \<equiv> sum_list (take (k - i) (drop i row)) / real (k - i)"
  defines "row' \<equiv> take i row @ nb # drop k row"
  defines "sizes' \<equiv> take i sizes @ (sizes ! i * int (k - i)) # drop k sizes"
  shows "sum_list sizes' = sum_list sizes"
    and "weighted_sum row' sizes' = weighted_sum row sizes"
    and "(\<forall>x\<in>set sizes. 0 < x) \<Longrightarrow> (\<forall>x\<in>set sizes'. 0 < x)"
    and "(\<forall>x\<in>set row. x = c) \<Longrightarrow> (\<forall>x\<in>set row'. x = c)"
proof -
  let ?R = "take (k - i) (drop i row)"
  have kb: "k \<le> length sizes" using i k scan_run_le [of i sizes i] by simp
  have ik: "i \<le> k" using lt by simp
  have rep: "take (k - i) (drop i sizes) = replicate (k - i) (sizes ! i)"
    using run_replicate [OF i k] .
  have ds: "sizes = take i sizes @ replicate (k - i) (sizes ! i) @ drop k sizes"
    using split3 [OF ik, of sizes] rep by simp
  have dr: "row = take i row @ ?R @ drop k row"
    using split3 [OF ik, of row] .
  have lR: "length ?R = k - i" using kb len by simp
  have "sum_list sizes = sum_list (take i sizes) + sum_list (replicate (k - i) (sizes ! i))
          + sum_list (drop k sizes)"
    by (subst ds) simp
  then show "sum_list sizes' = sum_list sizes"
    by (simp add: sizes'_def sum_list_replicate algebra_simps)
  have "weighted_sum row sizes =
          weighted_sum (take i row @ ?R @ drop k row)
            (take i sizes @ replicate (k - i) (sizes ! i) @ drop k sizes)"
    using ds dr by simp
  also have "\<dots> = weighted_sum (take i row) (take i sizes)
        + (weighted_sum ?R (replicate (k - i) (sizes ! i))
           + weighted_sum (drop k row) (drop k sizes))"
    using len lR by (simp add: weighted_sum_append)
  finally have w: "weighted_sum row sizes = weighted_sum (take i row) (take i sizes)
        + (sum_list ?R * of_int (sizes ! i) + weighted_sum (drop k row) (drop k sizes))"
    using lR by (simp add: weighted_sum_replicate)
  have nz: "real (k - i) \<noteq> 0" using lt by simp
  have "nb * of_int (sizes ! i * int (k - i)) = sum_list ?R * of_int (sizes ! i)"
    using nz by (simp add: nb_def)
  moreover have "weighted_sum row' sizes' = weighted_sum (take i row) (take i sizes)
        + (nb * of_int (sizes ! i * int (k - i)) + weighted_sum (drop k row) (drop k sizes))"
    using len by (simp add: row'_def sizes'_def weighted_sum_append weighted_sum_Cons)
  ultimately show "weighted_sum row' sizes' = weighted_sum row sizes"
    using w by simp
  show "(\<forall>x\<in>set sizes'. 0 < x)" if pos: "\<forall>x\<in>set sizes. 0 < x"
  proof -
    have "0 < sizes ! i" using pos i by simp
    moreover have "0 < int (k - i)" using lt by simp
    ultimately have "0 < sizes ! i * int (k - i)" by simp
    moreover have "\<forall>x\<in>set (take i sizes). 0 < x" "\<forall>x\<in>set (drop k sizes). 0 < x"
      using pos by (auto dest: in_set_takeD in_set_dropD)
    ultimately show ?thesis unfolding sizes'_def by (metis Un_iff set_ConsD set_append)
  qed
  show "(\<forall>x\<in>set row'. x = c)" if cst: "\<forall>x\<in>set row. x = c"
  proof -
    have "\<forall>x\<in>set ?R. x = c" using cst by (auto dest: in_set_takeD in_set_dropD)
    then have "?R = replicate (k - i) c" using lR by (simp add: replicate_eqI)
    then have "sum_list ?R = real (k - i) * c" by (simp add: sum_list_replicate)
    then have "nb = c" using nz by (simp add: nb_def)
    moreover have "\<forall>x\<in>set (take i row). x = c" "\<forall>x\<in>set (drop k row). x = c"
      using cst by (auto dest: in_set_takeD in_set_dropD)
    ultimately show ?thesis by (auto simp: row'_def)
  qed
qed

lemma compress_buckets_keeps:
  assumes len: "length (bucket_row s) = length (bucket_sizes s)"
  shows "\<exists>s'. compress_buckets s = Inr s'
           \<and> delta s' = delta s \<and> total s' = total s \<and> variance s' = variance s
           \<and> width s' = width s
           \<and> length (bucket_row s') = length (bucket_sizes s')
           \<and> sum_list (bucket_sizes s') = sum_list (bucket_sizes s)
           \<and> weighted_sum (bucket_row s') (bucket_sizes s')
               = weighted_sum (bucket_row s) (bucket_sizes s)
           \<and> ((\<forall>x\<in>set (bucket_sizes s). 0 < x) \<longrightarrow> (\<forall>x\<in>set (bucket_sizes s'). 0 < x))
           \<and> ((\<forall>x\<in>set (bucket_row s). x = c) \<longrightarrow> (\<forall>x\<in>set (bucket_row s'). x = c))"
proof -
  define P where "P = (\<lambda>row sizes.
       sum_list sizes = sum_list (bucket_sizes s)
     \<and> weighted_sum row sizes = weighted_sum (bucket_row s) (bucket_sizes s)
     \<and> ((\<forall>x\<in>set (bucket_sizes s). 0 < x) \<longrightarrow> (\<forall>x\<in>set sizes. (0::int) < x))
     \<and> ((\<forall>x\<in>set (bucket_row s). x = c) \<longrightarrow> (\<forall>x\<in>set row. x = c)))"
  have step: "P (take i row @ (sum_list (take (k - i) (drop i row)) / real (k - i)) # drop k row)
        (take i sizes @ (sizes ! i * int (k - i)) # drop k sizes)"
    if "length row = length sizes" "P row sizes" "i < length sizes" "k = scan_run sizes i i"
       "Suc i < k" for row sizes i k
  proof -
    note mk = merge_keeps(1-3) [OF that(1) that(3) that(4) that(5)]
      merge_keeps(4) [OF that(1) that(3) that(4) that(5), of c]
    from that(2) have a: "sum_list sizes = sum_list (bucket_sizes s)"
      and b: "weighted_sum row sizes = weighted_sum (bucket_row s) (bucket_sizes s)"
      and p: "(\<forall>x\<in>set (bucket_sizes s). 0 < x) \<longrightarrow> (\<forall>x\<in>set sizes. 0 < x)"
      and q: "(\<forall>x\<in>set (bucket_row s). x = c) \<longrightarrow> (\<forall>x\<in>set row. x = c)"
      unfolding P_def by blast+
    show ?thesis
      unfolding P_def
    proof (intro conjI impI)
      show "sum_list (take i sizes @ (sizes ! i * int (k - i)) # drop k sizes)
              = sum_list (bucket_sizes s)"
        by (rule trans [OF mk(1) a])
      show "weighted_sum
              (take i row @ (sum_list (take (k - i) (drop i row)) / real (k - i)) # drop k row)
              (take i sizes @ (sizes ! i * int (k - i)) # drop k sizes)
              = weighted_sum (bucket_row s) (bucket_sizes s)"
        by (rule trans [OF mk(2) b])
      show "\<forall>x\<in>set (take i sizes @ (sizes ! i * int (k - i)) # drop k sizes). 0 < x"
        if "\<forall>x\<in>set (bucket_sizes s). 0 < x"
        using mk(3) p that by blast
      show "\<forall>x\<in>set (take i row @ (sum_list (take (k - i) (drop i row)) / real (k - i))
                       # drop k row). x = c"
        if "\<forall>x\<in>set (bucket_row s). x = c"
        using mk(4) q that by blast
    qed
  qed
  have "P (bucket_row s) (bucket_sizes s)" by (simp add: P_def)
  from compress_loop_inv [of P, OF step len this, of 0]
  obtain row' sizes' where r: "compress_loop (bucket_row s) (bucket_sizes s) 0 = Inr (row', sizes')"
    "length row' = length sizes'" "P row' sizes'"
    by blast
  have "compress_buckets s = Inr (s\<lparr>bucket_row := row', bucket_sizes := sizes'\<rparr>)"
    using r(1) by (simp add: compress_buckets_def)
  moreover from r(3) have "sum_list sizes' = sum_list (bucket_sizes s)"
    and "weighted_sum row' sizes' = weighted_sum (bucket_row s) (bucket_sizes s)"
    and "(\<forall>x\<in>set (bucket_sizes s). 0 < x) \<longrightarrow> (\<forall>x\<in>set sizes'. 0 < x)"
    and "(\<forall>x\<in>set (bucket_row s). x = c) \<longrightarrow> (\<forall>x\<in>set row'. x = c)"
    unfolding P_def by blast+
  ultimately show ?thesis using r(2) by simp
qed


subsection \<open>The scan of the split points\<close>

lemma detect_scan_none:
  "\<forall>i\<in>set js. split_check s i = Inr False \<Longrightarrow> detect_scan s js = Inr (False, s)"
  by (induction js) simp_all

lemma detect_scan_hit:
  "\<forall>j\<in>set pre. split_check s j = Inr False \<Longrightarrow> split_check s i = Inr True \<Longrightarrow>
     detect_scan s (pre @ i # post) = Inr (True, shrink s i)"
  by (induction pre) simp_all

lemma detect_scan_result:
  "detect_scan s js = Inr (b, s') \<Longrightarrow>
     (\<not> b \<and> s' = s) \<or> (b \<and> (\<exists>i\<in>set js. s' = shrink s i))"
  by (induction js) (auto split: sum.splits bool.splits)

lemma detect_scan_total:
  "\<forall>i\<in>set js. \<exists>b. split_check s i = Inr b \<Longrightarrow> \<exists>b s'. detect_scan s js = Inr (b, s')"
proof (induction js)
  case Nil
  then show ?case by auto
next
  case (Cons i js)
  then obtain b where b: "split_check s i = Inr b" by auto
  show ?case
  proof (cases b)
    case True
    with b show ?thesis by auto
  next
    case False
    with b Cons show ?thesis by auto
  qed
qed

lemma upt_split: "1 \<le> i \<Longrightarrow> i < n \<Longrightarrow> [1..<n] = [1..<i] @ i # [Suc i..<n]"
  by (metis less_imp_le_nat upt_add_eq_append upt_conv_Cons le_add_diff_inverse One_nat_def)

subsection \<open>The split test on a well-formed state\<close>

lemma sum_list_pos_int:
  fixes xs :: "int list"
  shows "xs \<noteq> [] \<Longrightarrow> \<forall>x\<in>set xs. 0 < x \<Longrightarrow> 0 < sum_list xs"
  by (induction xs) (auto simp: add_pos_nonneg sum_list_nonneg less_imp_le)

lemma split_sizes_pos:
  assumes "\<forall>x\<in>set sizes. (0::int) < x" and "1 \<le> i" and "i < length sizes"
  shows "0 < sum_list (take i sizes)" and "0 < sum_list (drop i sizes)"
proof -
  have "take i sizes \<noteq> []" "drop i sizes \<noteq> []" using assms by auto
  moreover have "\<forall>x\<in>set (take i sizes). 0 < x" "\<forall>x\<in>set (drop i sizes). 0 < x"
    using assms(1) by (auto dest: in_set_takeD in_set_dropD)
  ultimately show "0 < sum_list (take i sizes)" and "0 < sum_list (drop i sizes)"
    by (simp_all add: sum_list_pos_int)
qed

lemma spec_n_pos:
  assumes "well_formed s" and "1 \<le> i" and "i < length (bucket_sizes s)"
  shows "0 < spec_n0 s i" and "0 < spec_n1 s i"
  using split_sizes_pos [of "bucket_sizes s" i] assms
  by (simp_all add: well_formed_def spec_n0_def spec_n1_def)

lemma eps_arg_nonneg:
  assumes "well_formed s" and "1 \<le> i" and "i < length (bucket_sizes s)"
  shows "0 \<le> 2 * spec_m s i * ln (4 / delta s) / spec_n0 s i / spec_n1 s i"
proof -
  have p: "0 < spec_n0 s i" "0 < spec_n1 s i" using spec_n_pos [OF assms] .
  have "1 \<le> 4 / delta s" using assms(1) by (simp add: well_formed_def)
  then have "0 \<le> ln (4 / delta s)" by simp
  moreover have "0 < spec_m s i" using p by (simp add: spec_m_def add_pos_pos)
  ultimately show ?thesis using p by simp
qed

lemma spec_eps_nonneg:
  assumes "well_formed s" and "1 \<le> i" and "i < length (bucket_sizes s)"
  shows "0 \<le> spec_eps s i"
  using eps_arg_nonneg [OF assms] by (simp add: spec_eps_def)

lemma split_check_well_formed:
  assumes "well_formed s" and "1 \<le> i" and "i < length (bucket_sizes s)"
  shows "split_check s i = Inr (spec_fires s i)"
proof -
  let ?n0 = "sum_list (take i (bucket_sizes s))"
  let ?n1 = "sum_list (drop i (bucket_sizes s))"
  have p: "0 < ?n0" "0 < ?n1"
    using split_sizes_pos [of "bucket_sizes s" i] assms by (simp_all add: well_formed_def)
  then have q: "0 < 1 / real_of_int ?n0 + 1 / real_of_int ?n1" by (simp add: add_pos_pos)
  have d: "delta s \<noteq> 0" "\<not> 4 / delta s \<le> 0" using assms(1) by (simp_all add: well_formed_def)
  have r: "\<not> 2 * (1 / (1 / real_of_int ?n0 + 1 / real_of_int ?n1)) * ln (4 / delta s)
              / real_of_int ?n0 / real_of_int ?n1 < 0"
    using eps_arg_nonneg [OF assms] by (simp add: spec_m_def spec_n0_def spec_n1_def)
  show ?thesis
    unfolding split_check_def Let_def spec_fires_def spec_eps_def spec_m_def spec_u0_def
      spec_u1_def spec_n0_def spec_n1_def
    using p q d r by simp
qed

section \<open>The invariant of the detector\<close>

lemma bucket_inv_new: "bucket_inv (new_adwin d)"
  by (simp add: bucket_inv_def new_adwin_def weighted_sum_def)

lemma bucket_inv_insert: "bucket_inv s \<Longrightarrow> bucket_inv (insert_element s v)"
  by (simp add: bucket_inv_def insert_element_def weighted_sum_append weighted_sum_Cons
      weighted_sum_Nil)

lemma bucket_inv_shrink: "bucket_inv s \<Longrightarrow> bucket_inv (shrink s i)"
  by (auto simp: bucket_inv_def shrink_def dest: in_set_dropD)

lemma shrink_fields:
  "delta (shrink s i) = delta s"
  "bucket_row (shrink s i) = drop i (bucket_row s)"
  "bucket_sizes (shrink s i) = drop i (bucket_sizes s)"
  "width (shrink s i) = sum_list (drop i (bucket_sizes s))"
  "total (shrink s i) = weighted_sum (drop i (bucket_row s)) (drop i (bucket_sizes s))"
  "variance (shrink s i) = weighted_squares (drop i (bucket_row s)) (drop i (bucket_sizes s))"
  by (simp_all add: shrink_def)

lemma bucket_inv_compress:
  assumes "bucket_inv s"
  shows "\<exists>s'. compress_buckets s = Inr s' \<and> bucket_inv s' \<and> delta s' = delta s
           \<and> variance s' = variance s"
proof -
  from assms have len: "length (bucket_row s) = length (bucket_sizes s)"
    by (simp add: bucket_inv_def)
  from compress_buckets_keeps [OF len, of 0] obtain s' where s': "compress_buckets s = Inr s'"
    "delta s' = delta s" "total s' = total s" "variance s' = variance s" "width s' = width s"
    "length (bucket_row s') = length (bucket_sizes s')"
    "sum_list (bucket_sizes s') = sum_list (bucket_sizes s)"
    "weighted_sum (bucket_row s') (bucket_sizes s') = weighted_sum (bucket_row s) (bucket_sizes s)"
    "(\<forall>x\<in>set (bucket_sizes s). 0 < x) \<longrightarrow> (\<forall>x\<in>set (bucket_sizes s'). 0 < x)"
    by blast
  have "bucket_inv s'"
    using assms s'(3,5-9) unfolding bucket_inv_def by simp
  with s'(1,2,4) show ?thesis by blast
qed

lemma detect_change_result:
  assumes "detect_change s = Inr (b, s')"
  shows "(\<not> b \<and> s' = s) \<or> (b \<and> (\<exists>i. 1 \<le> i \<and> i < length (bucket_sizes s) \<and> s' = shrink s i))"
  using detect_scan_result [OF assms [unfolded detect_change_def]] by auto

lemma variance_consistent_shrink: "variance_consistent (shrink s i)"
  by (simp add: variance_consistent_def shrink_def)

lemma bucket_inv_detect:
  assumes "bucket_inv s" and "detect_change s = Inr (b, s')"
  shows "bucket_inv s' \<and> delta s' = delta s \<and> (b \<longrightarrow> variance_consistent s')"
  using detect_change_result [OF assms(2)] assms(1)
  by (auto simp: bucket_inv_shrink shrink_fields variance_consistent_shrink)

lemma well_formed_of_inv: "bucket_inv s \<Longrightarrow> 0 < delta s \<Longrightarrow> delta s \<le> 4 \<Longrightarrow> well_formed s"
  by (simp add: bucket_inv_def well_formed_def)

lemma detect_change_total:
  assumes "well_formed s"
  shows "\<exists>b s'. detect_change s = Inr (b, s')"
  unfolding detect_change_def
  by (rule detect_scan_total) (use assms in \<open>auto simp: split_check_well_formed\<close>)

lemma update_unfold:
  "compress_buckets (insert_element s v) = Inr s1 \<Longrightarrow> update s v = detect_change s1"
  by (simp add: update_def)

lemma bucket_inv_update:
  assumes "bucket_inv s" and "update s v = Inr (b, s')"
  shows "bucket_inv s' \<and> delta s' = delta s \<and> (b \<longrightarrow> variance_consistent s')"
proof -
  from bucket_inv_compress [OF bucket_inv_insert [OF assms(1), of v]]
  obtain s1 where s1: "compress_buckets (insert_element s v) = Inr s1" "bucket_inv s1"
    "delta s1 = delta (insert_element s v)" by blast
  then have "detect_change s1 = Inr (b, s')" using assms(2) by (simp add: update_unfold)
  from bucket_inv_detect [OF s1(2) this] s1(3) show ?thesis
    by (simp add: insert_element_def)
qed

lemma update_total:
  assumes "bucket_inv s" and "0 < delta s" and "delta s \<le> 4"
  shows "\<exists>b s'. update s v = Inr (b, s')"
proof -
  from bucket_inv_compress [OF bucket_inv_insert [OF assms(1), of v]]
  obtain s1 where s1: "compress_buckets (insert_element s v) = Inr s1" "bucket_inv s1"
    "delta s1 = delta (insert_element s v)" by blast
  then have "well_formed s1" using assms(2,3)
    by (intro well_formed_of_inv) (simp_all add: insert_element_def)
  from detect_change_total [OF this] s1(1) show ?thesis by (simp add: update_unfold)
qed

lemma bucket_inv_run:
  "bucket_inv s \<Longrightarrow> adwin_run s vs = Inr (bs, s') \<Longrightarrow> bucket_inv s' \<and> delta s' = delta s"
proof (induction vs arbitrary: s bs)
  case Nil
  then show ?case by simp
next
  case (Cons v vs)
  from Cons.prems(2) obtain b s1 bs1 where u: "update s v = Inr (b, s1)"
    and r: "adwin_run s1 vs = Inr (bs1, s')"
    by (auto split: sum.splits prod.splits)
  from bucket_inv_update [OF Cons.prems(1) u] have "bucket_inv s1" "delta s1 = delta s" by simp_all
  with Cons.IH [OF this(1) r] show ?case by simp
qed

section \<open>Deciding the split test\<close>

lemma const_means:
  assumes "well_formed s" and "length (bucket_row s) = length (bucket_sizes s)"
    and "\<forall>x\<in>set (bucket_row s). x = c" and "1 \<le> i" and "i < length (bucket_sizes s)"
  shows "spec_u0 s i = c" and "spec_u1 s i = c"
proof -
  have p: "0 < spec_n0 s i" "0 < spec_n1 s i" using spec_n_pos [OF assms(1,4,5)] .
  have "\<forall>x\<in>set (take i (bucket_row s)). x = c" "\<forall>x\<in>set (drop i (bucket_row s)). x = c"
    using assms(3) by (auto dest: in_set_takeD in_set_dropD)
  then have "weighted_sum (take i (bucket_row s)) (take i (bucket_sizes s)) = c * spec_n0 s i"
    and "weighted_sum (drop i (bucket_row s)) (drop i (bucket_sizes s)) = c * spec_n1 s i"
    using assms(2) by (simp_all add: weighted_sum_const spec_n0_def spec_n1_def)
  with p show "spec_u0 s i = c" and "spec_u1 s i = c"
    by (simp_all add: spec_u0_def spec_u1_def)
qed

lemma equal_means_quiet:
  assumes "well_formed s" and "1 \<le> i" and "i < length (bucket_sizes s)"
    and "spec_u0 s i = spec_u1 s i"
  shows "\<not> spec_fires s i"
  using spec_eps_nonneg [OF assms(1-3)] assms(4) by (simp add: spec_fires_def)

lemma const_no_change:
  assumes "well_formed s" and "length (bucket_row s) = length (bucket_sizes s)"
    and "\<forall>x\<in>set (bucket_row s). x = c"
  shows "detect_change s = Inr (False, s)"
  unfolding detect_change_def
proof (rule detect_scan_none, rule ballI)
  fix i assume "i \<in> set [1..<length (bucket_sizes s)]"
  then have i: "1 \<le> i" "i < length (bucket_sizes s)" by simp_all
  have "\<not> spec_fires s i"
    using equal_means_quiet [OF assms(1) i] const_means [OF assms i] by simp
  then show "split_check s i = Inr False"
    using split_check_well_formed [OF assms(1) i] by simp
qed

lemma harmonic_arg:
  fixes a b L :: real
  assumes "0 < a" and "0 < b"
  shows "2 * (1 / (1 / a + 1 / b)) * L / a / b = 2 * L / (a + b)"
proof -
  have "1 / a + 1 / b = (a + b) / (a * b)"
    using assms by (simp add: field_simps)
  then have "1 / (1 / a + 1 / b) = a * b / (a + b)" by simp
  then have "2 * (1 / (1 / a + 1 / b)) * L / a / b = 2 * (a * b / (a + b)) * L / a / b"
    by simp
  also have "\<dots> = 2 * L / (a + b)"
    using assms by simp
  finally show ?thesis .
qed

lemma eps_arg_le_ln:
  assumes "well_formed s" and "1 \<le> i" and "i < length (bucket_sizes s)"
  shows "2 * spec_m s i * ln (4 / delta s) / spec_n0 s i / spec_n1 s i \<le> ln (4 / delta s)"
proof -
  let ?a = "sum_list (take i (bucket_sizes s))" and ?b = "sum_list (drop i (bucket_sizes s))"
  have "0 < ?a" "0 < ?b"
    using split_sizes_pos [of "bucket_sizes s" i] assms by (simp_all add: well_formed_def)
  then have "1 \<le> ?a" "1 \<le> ?b" by simp_all
  then have ab: "1 \<le> spec_n0 s i" "1 \<le> spec_n1 s i"
    unfolding spec_n0_def spec_n1_def by simp_all
  then have pos: "0 < spec_n0 s i" "0 < spec_n1 s i" by simp_all
  have "1 \<le> 4 / delta s" using assms(1) by (simp add: well_formed_def)
  then have L: "0 \<le> ln (4 / delta s)" by simp
  have "2 * spec_m s i * ln (4 / delta s) / spec_n0 s i / spec_n1 s i
          = 2 * ln (4 / delta s) / (spec_n0 s i + spec_n1 s i)"
    unfolding spec_m_def by (rule harmonic_arg [OF pos])
  also have "\<dots> \<le> 2 * ln (4 / delta s) / 2"
    using ab L by (intro divide_left_mono) simp_all
  finally show ?thesis by simp
qed

lemma wide_gap_fires:
  assumes "well_formed s" and "1 \<le> i" and "i < length (bucket_sizes s)"
    and "ln (4 / delta s) < (spec_u0 s i - spec_u1 s i)\<^sup>2"
  shows "spec_fires s i"
proof -
  have "2 * spec_m s i * ln (4 / delta s) / spec_n0 s i / spec_n1 s i
          < \<bar>spec_u0 s i - spec_u1 s i\<bar>\<^sup>2"
    using eps_arg_le_ln [OF assms(1-3)] assms(4) by simp
  then have "spec_eps s i < \<bar>spec_u0 s i - spec_u1 s i\<bar>"
    unfolding spec_eps_def by (intro real_less_lsqrt) simp_all
  then show ?thesis by (simp add: spec_fires_def)
qed

lemma ln_default_delta: "ln (4 / default_delta) \<le> 1999"
  using ln_le_minus_one [of "2000::real"] by (simp add: default_delta_def)

section \<open>The scan of detect_change\<close>

text \<open>
  Claim C1. On a well-formed state \<^verbatim>\<open>detect_change\<close> decides by the first split point, in
  increasing order from 1 to the bucket count minus 1, at which \<open>|u0 - u1| > eps\<close> holds, with
  \<open>m = 1 / (1/n0 + 1/n1)\<close> and \<open>eps = sqrt (2 * m * ln (4 / delta) / n0 / n1)\<close>. At that split
  point \<open>i\<close> it returns \<open>True\<close>; the buckets before \<open>i\<close> are gone, the width is \<open>n1\<close>, and the
  total and the variance are computed from the retained buckets alone; whether a later split
  point would fire plays no role. When no split point fires it returns \<open>False\<close> and the state
  is unchanged.
\<close>

theorem detect_change_first_hit:
  assumes "well_formed s"
  shows "(\<forall>i. 1 \<le> i \<and> i < length (bucket_sizes s) \<and> spec_fires s i
              \<and> (\<forall>j. 1 \<le> j \<and> j < i \<longrightarrow> \<not> spec_fires s j)
            \<longrightarrow> (\<exists>s'. detect_change s = Inr (True, s')
                  \<and> bucket_row s' = drop i (bucket_row s)
                  \<and> bucket_sizes s' = drop i (bucket_sizes s)
                  \<and> of_int (width s') = spec_n1 s i
                  \<and> total s' = weighted_sum (bucket_row s') (bucket_sizes s')
                  \<and> variance s' = weighted_squares (bucket_row s') (bucket_sizes s')
                  \<and> delta s' = delta s))
       \<and> ((\<forall>i. 1 \<le> i \<and> i < length (bucket_sizes s) \<longrightarrow> \<not> spec_fires s i)
            \<longrightarrow> detect_change s = Inr (False, s))"
proof (intro conjI allI impI)
  fix i
  assume a: "1 \<le> i \<and> i < length (bucket_sizes s) \<and> spec_fires s i
              \<and> (\<forall>j. 1 \<le> j \<and> j < i \<longrightarrow> \<not> spec_fires s j)"
  then have i: "1 \<le> i" "i < length (bucket_sizes s)" by simp_all
  have hit: "split_check s i = Inr True"
    using split_check_well_formed [OF assms i] a by simp
  have quiet: "\<forall>j\<in>set [1..<i]. split_check s j = Inr False"
  proof
    fix j assume "j \<in> set [1..<i]"
    then have j: "1 \<le> j" "j < i" by simp_all
    then have "j < length (bucket_sizes s)" using i by simp
    from split_check_well_formed [OF assms j(1) this] a j show "split_check s j = Inr False"
      by simp
  qed
  have "detect_change s = Inr (True, shrink s i)"
    unfolding detect_change_def upt_split [OF i]
    by (rule detect_scan_hit [OF quiet hit])
  then show "\<exists>s'. detect_change s = Inr (True, s')
                  \<and> bucket_row s' = drop i (bucket_row s)
                  \<and> bucket_sizes s' = drop i (bucket_sizes s)
                  \<and> of_int (width s') = spec_n1 s i
                  \<and> total s' = weighted_sum (bucket_row s') (bucket_sizes s')
                  \<and> variance s' = weighted_squares (bucket_row s') (bucket_sizes s')
                  \<and> delta s' = delta s"
    by (simp add: shrink_fields spec_n1_def)
next
  assume a: "\<forall>i. 1 \<le> i \<and> i < length (bucket_sizes s) \<longrightarrow> \<not> spec_fires s i"
  show "detect_change s = Inr (False, s)"
    unfolding detect_change_def
  proof (rule detect_scan_none, rule ballI)
    fix i assume "i \<in> set [1..<length (bucket_sizes s)]"
    then have i: "1 \<le> i" "i < length (bucket_sizes s)" by simp_all
    with a split_check_well_formed [OF assms i] show "split_check s i = Inr False" by simp
  qed
qed

lemma example_state_means:
  "spec_u0 \<lparr>delta = default_delta, bucket_row = [0, 100, - 100], bucket_sizes = [1, 1, 1],
             total = 0, variance = 20000, width = 3\<rparr> 1 = 0"
  "spec_u1 \<lparr>delta = default_delta, bucket_row = [0, 100, - 100], bucket_sizes = [1, 1, 1],
             total = 0, variance = 20000, width = 3\<rparr> 1 = 0"
  "spec_u0 \<lparr>delta = default_delta, bucket_row = [0, 100, - 100], bucket_sizes = [1, 1, 1],
             total = 0, variance = 20000, width = 3\<rparr> 2 = 50"
  "spec_u1 \<lparr>delta = default_delta, bucket_row = [0, 100, - 100], bucket_sizes = [1, 1, 1],
             total = 0, variance = 20000, width = 3\<rparr> 2 = - 100"
  by (simp_all add: spec_u0_def spec_u1_def spec_n0_def spec_n1_def weighted_sum_def)

theorem detect_change_first_hit_witness:
  "\<not> spec_fires \<lparr>delta = default_delta, bucket_row = [0, 100, - 100],
                     bucket_sizes = [1, 1, 1], total = 0, variance = 20000, width = 3\<rparr> 1
   \<and> spec_fires \<lparr>delta = default_delta, bucket_row = [0, 100, - 100],
                   bucket_sizes = [1, 1, 1], total = 0, variance = 20000, width = 3\<rparr> 2
   \<and> detect_change \<lparr>delta = default_delta, bucket_row = [0, 100, - 100],
                     bucket_sizes = [1, 1, 1], total = 0, variance = 20000, width = 3\<rparr>
       = Inr (True, \<lparr>delta = default_delta, bucket_row = [- 100], bucket_sizes = [1],
                     total = - 100, variance = 10000, width = 1\<rparr>)"
proof -
  let ?s = "\<lparr>delta = default_delta, bucket_row = [0, 100, - 100], bucket_sizes = [1, 1, 1],
             total = 0, variance = 20000, width = 3\<rparr>"
  have wf: "well_formed ?s" by (simp add: well_formed_def default_delta_def)
  have e1: "spec_u0 ?s 1 = spec_u1 ?s 1" by (simp only: example_state_means)
  have q1: "\<not> spec_fires ?s 1"
    by (rule equal_means_quiet [OF wf _ _ e1]) simp_all
  have "ln (4 / delta ?s) < (spec_u0 ?s 2 - spec_u1 ?s 2)\<^sup>2"
    using ln_default_delta by (simp add: example_state_means)
  then have f2: "spec_fires ?s 2"
    by (intro wide_gap_fires [OF wf]) simp_all
  have first: "\<forall>j. 1 \<le> j \<and> j < (2::nat) \<longrightarrow> \<not> spec_fires ?s j"
  proof (intro allI impI)
    fix j :: nat assume "1 \<le> j \<and> j < 2"
    then have "j = 1" by simp
    with q1 show "\<not> spec_fires ?s j" by simp
  qed
  have prem: "1 \<le> (2::nat) \<and> 2 < length (bucket_sizes ?s) \<and> spec_fires ?s 2
      \<and> (\<forall>j. 1 \<le> j \<and> j < (2::nat) \<longrightarrow> \<not> spec_fires ?s j)"
    using f2 first by simp
  from conjunct1 [OF detect_change_first_hit [OF wf], THEN spec, of 2, THEN mp, OF prem]
  obtain s' where s': "detect_change ?s = Inr (True, s')"
    "bucket_row s' = drop 2 (bucket_row ?s)" "bucket_sizes s' = drop 2 (bucket_sizes ?s)"
    "of_int (width s') = spec_n1 ?s 2"
    "total s' = weighted_sum (bucket_row s') (bucket_sizes s')"
    "variance s' = weighted_squares (bucket_row s') (bucket_sizes s')"
    "delta s' = delta ?s"
    by blast
  have "s' = \<lparr>delta = default_delta, bucket_row = [- 100], bucket_sizes = [1],
             total = - 100, variance = 10000, width = 1\<rparr>"
    using s'(2-7)
    by (intro adwin_state.equality) (simp_all add: weighted_sum_def weighted_squares_def spec_n1_def)
  with s'(1) q1 f2 show ?thesis by simp
qed

section \<open>The aggregate fields and the bucket list\<close>

lemma update_steps:
  assumes "compress_buckets (insert_element s v) = Inr s1" and "detect_change s1 = Inr (b, s2)"
  shows "update s v = Inr (b, s2)"
  using assms by (simp add: update_def)

lemma first_update:
  "update (new_adwin d) v =
     Inr (False, \<lparr>delta = d, bucket_row = [v], bucket_sizes = [1], total = v,
                  variance = v * v, width = 1\<rparr>)"
  by (simp add: update_def new_adwin_def insert_element_def compress_buckets_def
      compress_loop.simps scan_run.simps detect_change_def)

lemma second_update:
  "update \<lparr>delta = d, bucket_row = [x], bucket_sizes = [1], total = t, variance = q,
            width = 1\<rparr> v =
     Inr (False, \<lparr>delta = d, bucket_row = [(x + v) / 2], bucket_sizes = [2], total = t + v,
                  variance = q + v * v, width = 2\<rparr>)"
  by (simp add: update_def insert_element_def compress_buckets_def
      compress_loop.simps scan_run.simps detect_change_def)

lemma first_split_fires:
  assumes "well_formed s" and "1 < length (bucket_sizes s)" and "spec_fires s 1"
  shows "detect_change s = Inr (True, shrink s 1)"
proof -
  have "[1..<length (bucket_sizes s)] = 1 # [Suc 1..<length (bucket_sizes s)]"
    using assms(2) by (simp add: upt_conv_Cons)
  moreover have "split_check s 1 = Inr True"
    using split_check_well_formed [OF assms(1) _ assms(2)] assms(3) by simp
  ultimately show ?thesis by (simp add: detect_change_def)
qed

lemma third_update_jump:
  "update \<lparr>delta = default_delta, bucket_row = [0], bucket_sizes = [2], total = t,
            variance = q, width = 2\<rparr> 1000 =
     Inr (True, \<lparr>delta = default_delta, bucket_row = [1000], bucket_sizes = [1],
                  total = 1000, variance = 1000000, width = 1\<rparr>)"
proof (rule update_steps)
  let ?s1 = "\<lparr>delta = default_delta, bucket_row = [0, 1000], bucket_sizes = [2, 1],
              total = t + 1000, variance = q + 1000 * 1000, width = 3\<rparr>"
  show "compress_buckets (insert_element \<lparr>delta = default_delta, bucket_row = [0],
          bucket_sizes = [2], total = t, variance = q, width = 2\<rparr> 1000) = Inr ?s1"
    by (simp add: insert_element_def compress_buckets_def compress_loop.simps scan_run.simps)
  have wf: "well_formed ?s1" by (simp add: well_formed_def default_delta_def)
  have u: "spec_u0 ?s1 1 = 0" "spec_u1 ?s1 1 = 1000"
    by (simp_all add: spec_u0_def spec_u1_def spec_n0_def spec_n1_def weighted_sum_def)
  have "ln (4 / delta ?s1) < (spec_u0 ?s1 1 - spec_u1 ?s1 1)\<^sup>2"
    unfolding u using ln_default_delta by simp
  then have "spec_fires ?s1 1"
    by (intro wide_gap_fires [OF wf]) simp_all
  from first_split_fires [OF wf _ this]
  show "detect_change ?s1 = Inr (True, \<lparr>delta = default_delta, bucket_row = [1000],
          bucket_sizes = [1], total = 1000, variance = 1000000, width = 1\<rparr>)"
    by (simp add: shrink_def weighted_sum_def weighted_squares_def)
qed

lemma two_updates:
  "adwin_run (new_adwin d) [x, v] =
     Inr ([False, False],
          \<lparr>delta = d, bucket_row = [(x + v) / 2], bucket_sizes = [2], total = x + v,
            variance = x * x + v * v, width = 2\<rparr>)"
  by (simp add: first_update second_update)

text \<open>
  Claim C2, as stated, fails: after \<^verbatim>\<open>update(0)\<close> and \<^verbatim>\<open>update(2)\<close> on a fresh detector the
  two values are merged into one bucket of value 1 and size 2, the variance field is still
  \<open>0 * 0 + 2 * 2 = 4\<close>, and the squared bucket value weighted by its size is 2.
\<close>

theorem variance_consistency_counterexample:
  "adwin_run (new_adwin default_delta) [0, 2] =
     Inr ([False, False],
          \<lparr>delta = default_delta, bucket_row = [1], bucket_sizes = [2], total = 2,
            variance = 4, width = 2\<rparr>)
   \<and> \<not> spec_consistent \<lparr>delta = default_delta, bucket_row = [1], bucket_sizes = [2],
                          total = 2, variance = 4, width = 2\<rparr>"
  using two_updates [of default_delta 0 2]
  by (simp add: spec_consistent_def variance_consistent_def weighted_squares_def)

text \<open>
  Claim C2, amended. After any sequence of \<^verbatim>\<open>update\<close> calls on a fresh detector, and then
  after the insert, after the compression and after the whole of a further \<^verbatim>\<open>update\<close>, the
  width is the sum of the bucket sizes and the total is the sum of the bucket values weighted
  by size. The compression always completes and leaves the variance field as it was; the
  variance field equals the sum of the squared bucket values weighted by size when the
  \<^verbatim>\<open>update\<close> reported a change, that is right after a shrink.
\<close>

theorem width_total_consistency:
  assumes "adwin_run (new_adwin d) vs = Inr (bs, s)"
  shows "width_consistent s \<and> total_consistent s
       \<and> width_consistent (insert_element s v) \<and> total_consistent (insert_element s v)
       \<and> (\<exists>s1. compress_buckets (insert_element s v) = Inr s1
              \<and> width_consistent s1 \<and> total_consistent s1
              \<and> variance s1 = variance (insert_element s v))
       \<and> (\<forall>b s2. update s v = Inr (b, s2) \<longrightarrow>
              width_consistent s2 \<and> total_consistent s2 \<and> (b \<longrightarrow> variance_consistent s2))"
proof -
  have inv: "bucket_inv s"
    using bucket_inv_run [OF bucket_inv_new assms] by simp
  have c: "width_consistent t \<and> total_consistent t" if "bucket_inv t" for t
    using that by (simp add: bucket_inv_def width_consistent_def total_consistent_def)
  have ins: "bucket_inv (insert_element s v)" by (rule bucket_inv_insert [OF inv])
  from bucket_inv_compress [OF ins] obtain s1 where
    s1: "compress_buckets (insert_element s v) = Inr s1" "bucket_inv s1"
      "variance s1 = variance (insert_element s v)"
    by blast
  have upd: "width_consistent s2 \<and> total_consistent s2 \<and> (b \<longrightarrow> variance_consistent s2)"
    if "update s v = Inr (b, s2)" for b s2
    using bucket_inv_update [OF inv that] c [of s2] by simp
  from c [OF inv] c [OF ins] c [OF s1(2)] s1(1,3) upd show ?thesis by blast
qed

theorem width_total_consistency_witness:
  "adwin_run (new_adwin default_delta) [0, 0] =
     Inr ([False, False],
          \<lparr>delta = default_delta, bucket_row = [0], bucket_sizes = [2], total = 0,
            variance = 0, width = 2\<rparr>)
   \<and> update \<lparr>delta = default_delta, bucket_row = [0], bucket_sizes = [2], total = 0,
               variance = 0, width = 2\<rparr> 1000 =
       Inr (True, \<lparr>delta = default_delta, bucket_row = [1000], bucket_sizes = [1],
                     total = 1000, variance = 1000000, width = 1\<rparr>)
   \<and> width_consistent \<lparr>delta = default_delta, bucket_row = [1000], bucket_sizes = [1],
                        total = 1000, variance = 1000000, width = 1\<rparr>
   \<and> total_consistent \<lparr>delta = default_delta, bucket_row = [1000], bucket_sizes = [1],
                        total = 1000, variance = 1000000, width = 1\<rparr>
   \<and> variance_consistent \<lparr>delta = default_delta, bucket_row = [1000], bucket_sizes = [1],
                        total = 1000, variance = 1000000, width = 1\<rparr>"
proof -
  have run: "adwin_run (new_adwin default_delta) [0, 0] =
     Inr ([False, False],
          \<lparr>delta = default_delta, bucket_row = [0], bucket_sizes = [2], total = 0,
            variance = 0, width = 2\<rparr>)"
    using two_updates [of default_delta 0 0] by simp
  note upd = third_update_jump [of 0 0]
  from width_total_consistency [OF run, of 1000]
  have "\<forall>b s2. update \<lparr>delta = default_delta, bucket_row = [0], bucket_sizes = [2],
            total = 0, variance = 0, width = 2\<rparr> 1000 = Inr (b, s2) \<longrightarrow>
          width_consistent s2 \<and> total_consistent s2 \<and> (b \<longrightarrow> variance_consistent s2)"
    by blast
  with upd run show ?thesis by blast
qed

section \<open>A run with two reported changes\<close>

lemma quiet_update:
  assumes "compress_buckets (insert_element s v) = Inr s1" and "well_formed s1"
    and "length (bucket_row s1) = length (bucket_sizes s1)" and "\<forall>x\<in>set (bucket_row s1). x = c"
  shows "update s v = Inr (False, s1)"
  using update_steps [OF assms(1) const_no_change [OF assms(2,3,4)]] .

lemma jump_update:
  assumes "compress_buckets (insert_element s v) = Inr s1" and "well_formed s1"
    and "1 < length (bucket_sizes s1)"
    and "ln (4 / delta s1) < (spec_u0 s1 1 - spec_u1 s1 1)\<^sup>2"
  shows "update s v = Inr (True, shrink s1 1)"
proof -
  have "spec_fires s1 1"
    using assms(3) by (intro wide_gap_fires [OF assms(2) _ _ assms(4)]) simp_all
  from update_steps [OF assms(1) first_split_fires [OF assms(2,3) this]] show ?thesis .
qed

lemma run_step_1:
  "update (new_adwin default_delta) 0 =
     Inr (False, \<lparr>delta = default_delta, bucket_row = [0], bucket_sizes = [1],
        total = 0, variance = 0, width = 1\<rparr>)"
proof (rule quiet_update [where c = 0])
  show "compress_buckets (insert_element (new_adwin default_delta) 0) = Inr \<lparr>delta = default_delta, bucket_row = [0], bucket_sizes = [1],
        total = 0, variance = 0, width = 1\<rparr>"
    by (simp add: new_adwin_def insert_element_def compress_buckets_def compress_loop.simps
        scan_run.simps)
qed (simp_all add: well_formed_def default_delta_def)

lemma run_step_2:
  "update \<lparr>delta = default_delta, bucket_row = [0], bucket_sizes = [1],
        total = 0, variance = 0, width = 1\<rparr> 0 =
     Inr (False, \<lparr>delta = default_delta, bucket_row = [0], bucket_sizes = [2],
        total = 0, variance = 0, width = 2\<rparr>)"
proof (rule quiet_update [where c = 0])
  show "compress_buckets (insert_element \<lparr>delta = default_delta, bucket_row = [0], bucket_sizes = [1],
        total = 0, variance = 0, width = 1\<rparr> 0) = Inr \<lparr>delta = default_delta, bucket_row = [0], bucket_sizes = [2],
        total = 0, variance = 0, width = 2\<rparr>"
    by (simp add: new_adwin_def insert_element_def compress_buckets_def compress_loop.simps
        scan_run.simps)
qed (simp_all add: well_formed_def default_delta_def)

lemma run_step_3:
  "update \<lparr>delta = default_delta, bucket_row = [0], bucket_sizes = [2],
        total = 0, variance = 0, width = 2\<rparr> 0 =
     Inr (False, \<lparr>delta = default_delta, bucket_row = [0, 0], bucket_sizes = [2, 1],
        total = 0, variance = 0, width = 3\<rparr>)"
proof (rule quiet_update [where c = 0])
  show "compress_buckets (insert_element \<lparr>delta = default_delta, bucket_row = [0], bucket_sizes = [2],
        total = 0, variance = 0, width = 2\<rparr> 0) = Inr \<lparr>delta = default_delta, bucket_row = [0, 0], bucket_sizes = [2, 1],
        total = 0, variance = 0, width = 3\<rparr>"
    by (simp add: new_adwin_def insert_element_def compress_buckets_def compress_loop.simps
        scan_run.simps)
qed (simp_all add: well_formed_def default_delta_def)

lemma run_step_4:
  "update \<lparr>delta = default_delta, bucket_row = [0, 0], bucket_sizes = [2, 1],
        total = 0, variance = 0, width = 3\<rparr> 0 =
     Inr (False, \<lparr>delta = default_delta, bucket_row = [0, 0, 0], bucket_sizes = [2, 1, 1],
        total = 0, variance = 0, width = 4\<rparr>)"
proof (rule quiet_update [where c = 0])
  show "compress_buckets (insert_element \<lparr>delta = default_delta, bucket_row = [0, 0], bucket_sizes = [2, 1],
        total = 0, variance = 0, width = 3\<rparr> 0) = Inr \<lparr>delta = default_delta, bucket_row = [0, 0, 0], bucket_sizes = [2, 1, 1],
        total = 0, variance = 0, width = 4\<rparr>"
    by (simp add: new_adwin_def insert_element_def compress_buckets_def compress_loop.simps
        scan_run.simps)
qed (simp_all add: well_formed_def default_delta_def)

lemma run_step_5:
  "update \<lparr>delta = default_delta, bucket_row = [0, 0, 0], bucket_sizes = [2, 1, 1],
        total = 0, variance = 0, width = 4\<rparr> 0 =
     Inr (False, \<lparr>delta = default_delta, bucket_row = [0, 0, 0], bucket_sizes = [2, 1, 2],
        total = 0, variance = 0, width = 5\<rparr>)"
proof (rule quiet_update [where c = 0])
  show "compress_buckets (insert_element \<lparr>delta = default_delta, bucket_row = [0, 0, 0], bucket_sizes = [2, 1, 1],
        total = 0, variance = 0, width = 4\<rparr> 0) = Inr \<lparr>delta = default_delta, bucket_row = [0, 0, 0], bucket_sizes = [2, 1, 2],
        total = 0, variance = 0, width = 5\<rparr>"
    by (simp add: new_adwin_def insert_element_def compress_buckets_def compress_loop.simps
        scan_run.simps)
qed (simp_all add: well_formed_def default_delta_def)

lemma run_step_6:
  "update \<lparr>delta = default_delta, bucket_row = [0, 0, 0], bucket_sizes = [2, 1, 2],
        total = 0, variance = 0, width = 5\<rparr> 1000 =
     Inr (True, \<lparr>delta = default_delta, bucket_row = [0, 0, 1000], bucket_sizes = [1, 2, 1],
        total = 1000, variance = 1000000, width = 4\<rparr>)"
proof -
  let ?s1 = "\<lparr>delta = default_delta, bucket_row = [0, 0, 0, 1000], bucket_sizes = [2, 1, 2, 1],
        total = 1000, variance = 1000000, width = 6\<rparr>"
  have c: "compress_buckets (insert_element \<lparr>delta = default_delta, bucket_row = [0, 0, 0], bucket_sizes = [2, 1, 2],
        total = 0, variance = 0, width = 5\<rparr> 1000) = Inr ?s1"
    by (simp add: insert_element_def compress_buckets_def compress_loop.simps scan_run.simps)
  have wf: "well_formed ?s1" by (simp add: well_formed_def default_delta_def)
  have u: "spec_u0 ?s1 1 = 0" "spec_u1 ?s1 1 = 250"
    by (simp_all add: spec_u0_def spec_u1_def spec_n0_def spec_n1_def weighted_sum_def)
  have g: "ln (4 / delta ?s1) < (spec_u0 ?s1 1 - spec_u1 ?s1 1)\<^sup>2"
    unfolding u using ln_default_delta by (simp add: power2_eq_square)
  from jump_update [OF c wf _ g] show ?thesis
    by (simp add: shrink_def weighted_sum_def weighted_squares_def)
qed

lemma run_step_7:
  "update \<lparr>delta = default_delta, bucket_row = [0, 0, 1000], bucket_sizes = [1, 2, 1],
        total = 1000, variance = 1000000, width = 4\<rparr> (- 1000) =
     Inr (False, \<lparr>delta = default_delta, bucket_row = [0, 0, 0], bucket_sizes = [1, 2, 2],
        total = 0, variance = 2000000, width = 5\<rparr>)"
proof (rule quiet_update [where c = 0])
  show "compress_buckets (insert_element \<lparr>delta = default_delta, bucket_row = [0, 0, 1000], bucket_sizes = [1, 2, 1],
        total = 1000, variance = 1000000, width = 4\<rparr> (- 1000)) = Inr \<lparr>delta = default_delta, bucket_row = [0, 0, 0], bucket_sizes = [1, 2, 2],
        total = 0, variance = 2000000, width = 5\<rparr>"
    by (simp add: new_adwin_def insert_element_def compress_buckets_def compress_loop.simps
        scan_run.simps)
qed (simp_all add: well_formed_def default_delta_def)

lemma run_step_8:
  "update \<lparr>delta = default_delta, bucket_row = [0, 0, 0], bucket_sizes = [1, 2, 2],
        total = 0, variance = 2000000, width = 5\<rparr> 0 =
     Inr (False, \<lparr>delta = default_delta, bucket_row = [0, 0, 0, 0], bucket_sizes = [1, 2, 2, 1],
        total = 0, variance = 2000000, width = 6\<rparr>)"
proof (rule quiet_update [where c = 0])
  show "compress_buckets (insert_element \<lparr>delta = default_delta, bucket_row = [0, 0, 0], bucket_sizes = [1, 2, 2],
        total = 0, variance = 2000000, width = 5\<rparr> 0) = Inr \<lparr>delta = default_delta, bucket_row = [0, 0, 0, 0], bucket_sizes = [1, 2, 2, 1],
        total = 0, variance = 2000000, width = 6\<rparr>"
    by (simp add: new_adwin_def insert_element_def compress_buckets_def compress_loop.simps
        scan_run.simps)
qed (simp_all add: well_formed_def default_delta_def)

lemma run_step_9:
  "update \<lparr>delta = default_delta, bucket_row = [0, 0, 0, 0], bucket_sizes = [1, 2, 2, 1],
        total = 0, variance = 2000000, width = 6\<rparr> 0 =
     Inr (False, \<lparr>delta = default_delta, bucket_row = [0, 0, 0, 0, 0], bucket_sizes = [1, 2, 2, 1, 1],
        total = 0, variance = 2000000, width = 7\<rparr>)"
proof (rule quiet_update [where c = 0])
  show "compress_buckets (insert_element \<lparr>delta = default_delta, bucket_row = [0, 0, 0, 0], bucket_sizes = [1, 2, 2, 1],
        total = 0, variance = 2000000, width = 6\<rparr> 0) = Inr \<lparr>delta = default_delta, bucket_row = [0, 0, 0, 0, 0], bucket_sizes = [1, 2, 2, 1, 1],
        total = 0, variance = 2000000, width = 7\<rparr>"
    by (simp add: new_adwin_def insert_element_def compress_buckets_def compress_loop.simps
        scan_run.simps)
qed (simp_all add: well_formed_def default_delta_def)

lemma run_step_10:
  "update \<lparr>delta = default_delta, bucket_row = [0, 0, 0, 0, 0], bucket_sizes = [1, 2, 2, 1, 1],
        total = 0, variance = 2000000, width = 7\<rparr> 0 =
     Inr (False, \<lparr>delta = default_delta, bucket_row = [0, 0, 0, 0, 0], bucket_sizes = [1, 2, 2, 1, 2],
        total = 0, variance = 2000000, width = 8\<rparr>)"
proof (rule quiet_update [where c = 0])
  show "compress_buckets (insert_element \<lparr>delta = default_delta, bucket_row = [0, 0, 0, 0, 0], bucket_sizes = [1, 2, 2, 1, 1],
        total = 0, variance = 2000000, width = 7\<rparr> 0) = Inr \<lparr>delta = default_delta, bucket_row = [0, 0, 0, 0, 0], bucket_sizes = [1, 2, 2, 1, 2],
        total = 0, variance = 2000000, width = 8\<rparr>"
    by (simp add: new_adwin_def insert_element_def compress_buckets_def compress_loop.simps
        scan_run.simps)
qed (simp_all add: well_formed_def default_delta_def)

lemma run_step_11:
  "update \<lparr>delta = default_delta, bucket_row = [0, 0, 0, 0, 0], bucket_sizes = [1, 2, 2, 1, 2],
        total = 0, variance = 2000000, width = 8\<rparr> 0 =
     Inr (False, \<lparr>delta = default_delta, bucket_row = [0, 0, 0, 0, 0, 0], bucket_sizes = [1, 2, 2, 1, 2, 1],
        total = 0, variance = 2000000, width = 9\<rparr>)"
proof (rule quiet_update [where c = 0])
  show "compress_buckets (insert_element \<lparr>delta = default_delta, bucket_row = [0, 0, 0, 0, 0], bucket_sizes = [1, 2, 2, 1, 2],
        total = 0, variance = 2000000, width = 8\<rparr> 0) = Inr \<lparr>delta = default_delta, bucket_row = [0, 0, 0, 0, 0, 0], bucket_sizes = [1, 2, 2, 1, 2, 1],
        total = 0, variance = 2000000, width = 9\<rparr>"
    by (simp add: new_adwin_def insert_element_def compress_buckets_def compress_loop.simps
        scan_run.simps)
qed (simp_all add: well_formed_def default_delta_def)

lemma run_step_12:
  "update \<lparr>delta = default_delta, bucket_row = [0, 0, 0, 0, 0, 0], bucket_sizes = [1, 2, 2, 1, 2, 1],
        total = 0, variance = 2000000, width = 9\<rparr> 1000 =
     Inr (True, \<lparr>delta = default_delta, bucket_row = [0, 0, 0, 0, 0, 1000], bucket_sizes = [2, 2, 1, 2, 1, 1],
        total = 1000, variance = 1000000, width = 9\<rparr>)"
proof -
  let ?s1 = "\<lparr>delta = default_delta, bucket_row = [0, 0, 0, 0, 0, 0, 1000], bucket_sizes = [1, 2, 2, 1, 2, 1, 1],
        total = 1000, variance = 3000000, width = 10\<rparr>"
  have c: "compress_buckets (insert_element \<lparr>delta = default_delta, bucket_row = [0, 0, 0, 0, 0, 0], bucket_sizes = [1, 2, 2, 1, 2, 1],
        total = 0, variance = 2000000, width = 9\<rparr> 1000) = Inr ?s1"
    by (simp add: insert_element_def compress_buckets_def compress_loop.simps scan_run.simps)
  have wf: "well_formed ?s1" by (simp add: well_formed_def default_delta_def)
  have u: "spec_u0 ?s1 1 = 0" "spec_u1 ?s1 1 = 1000 / 9"
    by (simp_all add: spec_u0_def spec_u1_def spec_n0_def spec_n1_def weighted_sum_def)
  have g: "ln (4 / delta ?s1) < (spec_u0 ?s1 1 - spec_u1 ?s1 1)\<^sup>2"
    unfolding u using ln_default_delta by (simp add: power2_eq_square)
  from jump_update [OF c wf _ g] show ?thesis
    by (simp add: shrink_def weighted_sum_def weighted_squares_def)
qed

lemma run_twelve:
  "adwin_run (new_adwin default_delta) [0, 0, 0, 0, 0, 1000, - 1000, 0, 0, 0, 0, 1000] =
     Inr ([False, False, False, False, False, True, False, False, False, False, False, True],
       \<lparr>delta = default_delta, bucket_row = [0, 0, 0, 0, 0, 1000], bucket_sizes = [2, 2, 1, 2, 1, 1],
        total = 1000, variance = 1000000, width = 9\<rparr>)"
  by (simp add: run_step_1 run_step_2 run_step_3 run_step_4 run_step_5 run_step_6 run_step_7 run_step_8 run_step_9 run_step_10 run_step_11 run_step_12)

text \<open>
  Claim C3, as stated, fails. Twelve \<^verbatim>\<open>update\<close> calls on a fresh detector, two of which
  report a change, reach the bucket sizes \<open>2, 2, 1, 2, 1, 1\<close>. One call of
  \<^verbatim>\<open>compress_buckets\<close> gives the sizes \<open>4, 1, 2, 2\<close>, and a second call, with no insert in
  between, merges again and gives \<open>4, 1, 4\<close>.
\<close>

theorem compress_idempotent_counterexample:
  "adwin_run (new_adwin default_delta) [0, 0, 0, 0, 0, 1000, - 1000, 0, 0, 0, 0, 1000] =
     Inr ([False, False, False, False, False, True, False, False, False, False, False, True],
       \<lparr>delta = default_delta, bucket_row = [0, 0, 0, 0, 0, 1000], bucket_sizes = [2, 2, 1, 2, 1, 1],
        total = 1000, variance = 1000000, width = 9\<rparr>)
   \<and> compress_buckets
       \<lparr>delta = default_delta, bucket_row = [0, 0, 0, 0, 0, 1000], bucket_sizes = [2, 2, 1, 2, 1, 1],
        total = 1000, variance = 1000000, width = 9\<rparr> =
     Inr \<lparr>delta = default_delta, bucket_row = [0, 0, 0, 500], bucket_sizes = [4, 1, 2, 2],
        total = 1000, variance = 1000000, width = 9\<rparr>
   \<and> compress_buckets
       \<lparr>delta = default_delta, bucket_row = [0, 0, 0, 500], bucket_sizes = [4, 1, 2, 2],
        total = 1000, variance = 1000000, width = 9\<rparr> =
     Inr \<lparr>delta = default_delta, bucket_row = [0, 0, 250], bucket_sizes = [4, 1, 4],
        total = 1000, variance = 1000000, width = 9\<rparr>
   \<and> compress_buckets
       \<lparr>delta = default_delta, bucket_row = [0, 0, 0, 500], bucket_sizes = [4, 1, 2, 2],
        total = 1000, variance = 1000000, width = 9\<rparr> \<noteq>
     Inr \<lparr>delta = default_delta, bucket_row = [0, 0, 0, 500], bucket_sizes = [4, 1, 2, 2],
        total = 1000, variance = 1000000, width = 9\<rparr>"
proof -
  have "compress_buckets
       \<lparr>delta = default_delta, bucket_row = [0, 0, 0, 0, 0, 1000], bucket_sizes = [2, 2, 1, 2, 1, 1],
        total = 1000, variance = 1000000, width = 9\<rparr> =
     Inr \<lparr>delta = default_delta, bucket_row = [0, 0, 0, 500], bucket_sizes = [4, 1, 2, 2],
        total = 1000, variance = 1000000, width = 9\<rparr>"
    by (simp add: compress_buckets_def compress_loop.simps scan_run.simps)
  moreover have "compress_buckets
       \<lparr>delta = default_delta, bucket_row = [0, 0, 0, 500], bucket_sizes = [4, 1, 2, 2],
        total = 1000, variance = 1000000, width = 9\<rparr> =
     Inr \<lparr>delta = default_delta, bucket_row = [0, 0, 250], bucket_sizes = [4, 1, 4],
        total = 1000, variance = 1000000, width = 9\<rparr>"
    by (simp add: compress_buckets_def compress_loop.simps scan_run.simps)
  ultimately show ?thesis using run_twelve by simp
qed

section \<open>Compressing twice\<close>

lemma scan_run_single:
  assumes "i < length sizes" and "Suc i < length sizes \<longrightarrow> sizes ! i \<noteq> sizes ! Suc i"
  shows "scan_run sizes i i = Suc i"
proof -
  have "scan_run sizes i i = scan_run sizes i (Suc i)"
    using assms(1) by (subst scan_run.simps) auto
  also have "\<dots> = Suc i"
    using assms(2) by (subst scan_run.simps) auto
  finally show ?thesis .
qed

lemma compress_loop_distinct_adj:
  "distinct_adj sizes \<Longrightarrow> compress_loop row sizes i = Inr (row, sizes)"
proof (induction row sizes i rule: compress_loop.induct)
  case (1 row sizes i)
  show ?case
  proof (cases "i < length sizes")
    case False
    then show ?thesis by (subst compress_loop.simps) simp
  next
    case True
    have k: "scan_run sizes i i = Suc i"
      using scan_run_single [OF True] distinct_adj_nth [OF "1.prems", of i] by blast
    then have "compress_loop row sizes i = compress_loop row sizes (Suc i + 1)"
      using True by (subst compress_loop.simps) simp
    also have "\<dots> = Inr (row, sizes)"
      using "1.IH"(1) [OF True refl _ "1.prems"] k by simp
    finally show ?thesis .
  qed
qed

text \<open>
  Claim C3, amended. When a call of \<^verbatim>\<open>compress_buckets\<close> returns a bucket list in which no
  two adjacent buckets have the same size, a second call with no insert in between returns
  the same bucket list, values and sizes, as the first.
\<close>

theorem compress_twice_distinct_neighbours:
  assumes "compress_buckets s = Inr s1" and "distinct_adj (bucket_sizes s1)"
  shows "compress_buckets s1 = Inr s1"
  using compress_loop_distinct_adj [OF assms(2), of "bucket_row s1" 0]
  by (simp add: compress_buckets_def)

theorem compress_twice_distinct_neighbours_witness:
  "compress_buckets \<lparr>delta = default_delta, bucket_row = [0, 0, 0, 6], bucket_sizes = [2, 1, 1, 1],
      total = 6, variance = 36, width = 5\<rparr> =
     Inr \<lparr>delta = default_delta, bucket_row = [0, 0, 3], bucket_sizes = [2, 1, 2],
      total = 6, variance = 36, width = 5\<rparr>
   \<and> distinct_adj [2, 1, 2 :: int]
   \<and> compress_buckets \<lparr>delta = default_delta, bucket_row = [0, 0, 3], bucket_sizes = [2, 1, 2],
      total = 6, variance = 36, width = 5\<rparr> =
     Inr \<lparr>delta = default_delta, bucket_row = [0, 0, 3], bucket_sizes = [2, 1, 2],
      total = 6, variance = 36, width = 5\<rparr>"
proof -
  have c: "compress_buckets \<lparr>delta = default_delta, bucket_row = [0, 0, 0, 6],
      bucket_sizes = [2, 1, 1, 1], total = 6, variance = 36, width = 5\<rparr> =
     Inr \<lparr>delta = default_delta, bucket_row = [0, 0, 3], bucket_sizes = [2, 1, 2],
      total = 6, variance = 36, width = 5\<rparr>"
    by (simp add: compress_buckets_def compress_loop.simps scan_run.simps)
  have d: "distinct_adj [2, 1, 2 :: int]" by simp
  from compress_twice_distinct_neighbours [OF c] c d show ?thesis by simp
qed


section \<open>The bucket sizes\<close>





section \<open>A constant stream\<close>

lemma const_update:
  assumes "bucket_inv s" and "0 < delta s" and "delta s \<le> 4" and "\<forall>x\<in>set (bucket_row s). x = c"
  shows "\<exists>s'. update s c = Inr (False, s') \<and> bucket_inv s' \<and> delta s' = delta s
           \<and> (\<forall>x\<in>set (bucket_row s'). x = c) \<and> width s' = width s + 1"
proof -
  let ?t = "insert_element s c"
  have inv: "bucket_inv ?t" by (rule bucket_inv_insert [OF assms(1)])
  then have len: "length (bucket_row ?t) = length (bucket_sizes ?t)"
    by (simp add: bucket_inv_def)
  have cst: "\<forall>x\<in>set (bucket_row ?t). x = c"
    using assms(4) by (simp add: insert_element_def)
  have pos: "\<forall>x\<in>set (bucket_sizes ?t). 0 < x"
    using inv by (simp add: bucket_inv_def)
  from compress_buckets_keeps [OF len, of c] cst pos obtain s1 where
    s1: "compress_buckets ?t = Inr s1" "delta s1 = delta ?t" "total s1 = total ?t"
      "width s1 = width ?t" "length (bucket_row s1) = length (bucket_sizes s1)"
      "sum_list (bucket_sizes s1) = sum_list (bucket_sizes ?t)"
      "weighted_sum (bucket_row s1) (bucket_sizes s1) = weighted_sum (bucket_row ?t) (bucket_sizes ?t)"
      "\<forall>x\<in>set (bucket_sizes s1). 0 < x" "\<forall>x\<in>set (bucket_row s1). x = c"
    by blast
  have inv1: "bucket_inv s1"
    using inv s1(3-8) unfolding bucket_inv_def by simp
  have d1: "delta s1 = delta s" using s1(2) by (simp add: insert_element_def)
  have wf: "well_formed s1"
    using inv1 assms(2,3) d1 by (intro well_formed_of_inv) simp_all
  have "update s c = Inr (False, s1)"
    by (rule update_steps [OF s1(1) const_no_change [OF wf s1(5) s1(9)]])
  moreover have "width s1 = width s + 1" using s1(4) by (simp add: insert_element_def)
  ultimately show ?thesis using inv1 d1 s1(9) by blast
qed

lemma const_run:
  assumes "0 < delta s" and "delta s \<le> 4"
  shows "bucket_inv s \<Longrightarrow> \<forall>x\<in>set (bucket_row s). x = c \<Longrightarrow>
     \<exists>s'. adwin_run s (replicate n c) = Inr (replicate n False, s') \<and> bucket_inv s'
        \<and> width s' = width s + int n"
  using assms
proof (induction n arbitrary: s)
  case 0
  then show ?case by simp
next
  case (Suc n)
  from const_update [OF Suc.prems(1,3,4,2)] obtain s1 where
    s1: "update s c = Inr (False, s1)" "bucket_inv s1" "delta s1 = delta s"
      "\<forall>x\<in>set (bucket_row s1). x = c" "width s1 = width s + 1"
    by blast
  from Suc.IH [OF s1(2,4)] s1(3) Suc.prems(3,4) obtain s' where
    "adwin_run s1 (replicate n c) = Inr (replicate n False, s')" "bucket_inv s'"
    "width s' = width s1 + int n"
    by auto
  with s1(1,5) show ?case by simp
qed

text \<open>
  Claim C4. Feeding \<open>n\<close> copies of a value \<open>c\<close> into a fresh detector, with a confidence
  parameter in \<open>(0, 4]\<close> (the default is 0.002), makes every \<^verbatim>\<open>update\<close> call return \<open>False\<close>,
  and after the \<open>n\<close> insertions the bucket sizes add up to \<open>n\<close>.
\<close>

theorem constant_stream_no_change:
  assumes "0 < d" and "d \<le> 4"
  shows "\<exists>s. adwin_run (new_adwin d) (replicate n c) = Inr (replicate n False, s)
           \<and> sum_list (bucket_sizes s) = int n"
proof -
  have "0 < delta (new_adwin d)" "delta (new_adwin d) \<le> 4"
    using assms by (simp_all add: new_adwin_def)
  from const_run [OF this bucket_inv_new, of c n] obtain s where
    "adwin_run (new_adwin d) (replicate n c) = Inr (replicate n False, s)" "bucket_inv s"
    "width s = width (new_adwin d) + int n"
    by (auto simp: new_adwin_def)
  then show ?thesis by (auto simp: bucket_inv_def new_adwin_def)
qed

theorem constant_stream_no_change_witness:
  "0 < default_delta \<and> default_delta \<le> 4
   \<and> (\<exists>s. adwin_run (new_adwin default_delta) [7, 7, 7] = Inr ([False, False, False], s)
          \<and> sum_list (bucket_sizes s) = 3)"
proof -
  have d: "0 < default_delta" "default_delta \<le> 4" by (simp_all add: default_delta_def)
  from constant_stream_no_change [OF d, of 3 7] d show ?thesis
    by (simp add: numeral_3_eq_3)
qed

section \<open>The anomaly detector\<close>

lemma length_deque_append: "length (deque_append n w v) = min (Suc (length w)) n"
  by (simp add: deque_append_def)

lemma deque_append_room: "length w < n \<Longrightarrow> deque_append n w v = w @ [v]"
  by (simp add: deque_append_def)

lemma detect_anomaly_early:
  assumes "update (adwin d) v = Inr (c, a)" and "Suc (length (window d)) < maxlen d"
  shows "detect_anomaly d v = Inr ((False, c), d\<lparr>window := window d @ [v], adwin := a\<rparr>)"
  using assms by (simp add: detect_anomaly_def Let_def deque_append_room)

lemma detect_anomaly_full:
  assumes "update (adwin d) v = Inr (c, a)" and "0 < maxlen d"
    and "\<not> length (deque_append (maxlen d) (window d) v) < maxlen d"
  shows "detect_anomaly d v =
     Inr ((\<bar>(v - spec_mean (deque_append (maxlen d) (window d) v))
              / spec_std_dev (deque_append (maxlen d) (window d) v)\<bar> > z_threshold d, c),
          d\<lparr>window := deque_append (maxlen d) (window d) v, adwin := a\<rparr>)"
proof -
  have "length (deque_append (maxlen d) (window d) v) \<noteq> 0"
    using assms(2) by (simp add: length_deque_append)
  then show ?thesis
    using assms(1,3)
    by (simp add: detect_anomaly_def Let_def spec_mean_def spec_std_dev_def
        spec_population_variance_def)
qed

lemma detect_anomaly_result:
  assumes "update (adwin d) v = Inr (c, a)" and "0 < maxlen d"
  shows "\<exists>f. detect_anomaly d v =
           Inr ((f, c), d\<lparr>window := deque_append (maxlen d) (window d) v, adwin := a\<rparr>)
         \<and> (Suc (length (window d)) < maxlen d \<longrightarrow> \<not> f)"
proof (cases "length (deque_append (maxlen d) (window d) v) < maxlen d")
  case True
  then have "Suc (length (window d)) < maxlen d" by (simp add: length_deque_append)
  from detect_anomaly_early [OF assms(1) this] this show ?thesis
    by (auto simp: deque_append_room)
next
  case False
  then have "\<not> Suc (length (window d)) < maxlen d" by (simp add: length_deque_append)
  with detect_anomaly_full [OF assms False] show ?thesis by auto
qed


lemma detector_inv_new: "detector_inv (new_detector n z)"
  by (simp add: detector_inv_def new_detector_def bucket_inv_new)
     (simp add: new_adwin_def default_delta_def)

lemma detect_anomaly_total:
  assumes "detector_inv d" and "0 < maxlen d"
  shows "\<exists>r d'. detect_anomaly d v = Inr (r, d') \<and> detector_inv d' \<and> maxlen d' = maxlen d"
proof -
  from assms(1) have inv: "bucket_inv (adwin d)" "0 < delta (adwin d)" "delta (adwin d) \<le> 4"
    by (simp_all add: detector_inv_def)
  from update_total [OF inv, of v] obtain c a where u: "update (adwin d) v = Inr (c, a)"
    by blast
  from bucket_inv_update [OF inv(1) u] inv(2,3) have a: "bucket_inv a" "0 < delta a" "delta a \<le> 4"
    by simp_all
  from detect_anomaly_result [OF u assms(2)] obtain f where
    "detect_anomaly d v =
       Inr ((f, c), d\<lparr>window := deque_append (maxlen d) (window d) v, adwin := a\<rparr>)"
    by blast
  moreover have "detector_inv (d\<lparr>window := deque_append (maxlen d) (window d) v, adwin := a\<rparr>)"
    using a by (simp add: detector_inv_def)
  ultimately show ?thesis by simp
qed






section \<open>The Z-score test\<close>

text \<open>
  Claim C6. When the drift detector's \<^verbatim>\<open>update\<close> returns and the trailing window, after the
  new value is appended, has reached its capacity (of at least one), \<^verbatim>\<open>detect_anomaly\<close>
  returns \<open>is_anomaly = (|(value - mean) / std_dev| > z_threshold)\<close>, where mean is the
  arithmetic mean of the window, the variance is its population variance, and \<open>std_dev\<close> is
  the square root of the variance when the variance exceeds \<open>1e-6\<close> and \<open>1e-6\<close> otherwise.
\<close>

theorem z_score_when_window_full:
  assumes "update (adwin d) v = Inr (c, a)" and "0 < maxlen d"
    and "length (deque_append (maxlen d) (window d) v) = maxlen d"
  shows "\<exists>d'. detect_anomaly d v =
           Inr ((\<bar>(v - spec_mean (window d')) / spec_std_dev (window d')\<bar> > z_threshold d, c), d')
         \<and> window d' = deque_append (maxlen d) (window d) v \<and> adwin d' = a"
proof -
  have "\<not> length (deque_append (maxlen d) (window d) v) < maxlen d"
    using assms(3) by simp
  from detect_anomaly_full [OF assms(1,2) this] show ?thesis by simp
qed

lemma sqrt_250000: "sqrt 250000 = 500"
  by (rule real_sqrt_unique) simp_all

lemma example_window:
  "spec_mean [0, 1000] = 500"
  "spec_population_variance [0, 1000] = 250000"
  "spec_std_dev [0, 1000] = 500"
proof -
  show m: "spec_mean [0, 1000] = 500" by (simp add: spec_mean_def)
  show v: "spec_population_variance [0, 1000] = 250000"
    by (simp add: spec_population_variance_def m)
  show "spec_std_dev [0, 1000] = 500"
    by (simp add: spec_std_dev_def v sqrt_250000)
qed

lemma example_both_flags:
  "detect_anomaly
     \<lparr>adwin = \<lparr>delta = default_delta, bucket_row = [0], bucket_sizes = [2], total = 0,
                variance = 0, width = 2\<rparr>,
      window = [0, 0], maxlen = 2, z_threshold = 1 / 2\<rparr> 1000 =
   Inr ((True, True),
        \<lparr>adwin = \<lparr>delta = default_delta, bucket_row = [1000], bucket_sizes = [1],
                   total = 1000, variance = 1000000, width = 1\<rparr>,
         window = [0, 1000], maxlen = 2, z_threshold = 1 / 2\<rparr>)"
proof -
  let ?d = "\<lparr>adwin = \<lparr>delta = default_delta, bucket_row = [0], bucket_sizes = [2], total = 0,
                variance = 0, width = 2\<rparr>,
      window = [0, 0], maxlen = 2, z_threshold = 1 / 2\<rparr>"
  have u: "update (adwin ?d) 1000 =
     Inr (True, \<lparr>delta = default_delta, bucket_row = [1000], bucket_sizes = [1],
                  total = 1000, variance = 1000000, width = 1\<rparr>)"
    using third_update_jump [of 0 0] by simp
  have w: "deque_append (maxlen ?d) (window ?d) 1000 = [0, 1000]"
    by (simp add: deque_append_def)
  have "\<not> length (deque_append (maxlen ?d) (window ?d) 1000) < maxlen ?d"
    unfolding w by simp
  from detect_anomaly_full [OF u _ this] show ?thesis
    unfolding w by (simp add: example_window)
qed

theorem z_score_when_window_full_witness:
  "update \<lparr>delta = default_delta, bucket_row = [0], bucket_sizes = [2], total = 0,
            variance = 0, width = 2\<rparr> 1000 =
     Inr (True, \<lparr>delta = default_delta, bucket_row = [1000], bucket_sizes = [1],
                  total = 1000, variance = 1000000, width = 1\<rparr>)
   \<and> length (deque_append 2 [0, 0] 1000) = 2
   \<and> (\<exists>d'. detect_anomaly
          \<lparr>adwin = \<lparr>delta = default_delta, bucket_row = [0], bucket_sizes = [2], total = 0,
                     variance = 0, width = 2\<rparr>,
           window = [0, 0], maxlen = 2, z_threshold = 1 / 2\<rparr> 1000 = Inr ((True, True), d')
        \<and> window d' = [0, 1000])"
proof -
  let ?d = "\<lparr>adwin = \<lparr>delta = default_delta, bucket_row = [0], bucket_sizes = [2], total = 0,
                variance = 0, width = 2\<rparr>,
      window = [0, 0], maxlen = 2, z_threshold = 1 / 2\<rparr>"
  have u: "update (adwin ?d) 1000 =
     Inr (True, \<lparr>delta = default_delta, bucket_row = [1000], bucket_sizes = [1],
                  total = 1000, variance = 1000000, width = 1\<rparr>)"
    using third_update_jump [of 0 0] by simp
  have w: "deque_append (maxlen ?d) (window ?d) 1000 = [0, 1000]"
    by (simp add: deque_append_def)
  have l: "length (deque_append (maxlen ?d) (window ?d) 1000) = maxlen ?d"
    unfolding w by simp
  from z_score_when_window_full [OF u _ l] obtain d' where
    d': "detect_anomaly ?d 1000 =
           Inr ((\<bar>(1000 - spec_mean (window d')) / spec_std_dev (window d')\<bar> > z_threshold ?d,
                 True), d')"
      "window d' = deque_append (maxlen ?d) (window ?d) 1000"
    by auto
  from d'(2) w have wd: "window d' = [0, 1000]" by simp
  from d'(1) have "detect_anomaly ?d 1000 = Inr ((True, True), d')"
    unfolding wd by (simp add: example_window)
  with u wd show ?thesis by (auto simp: deque_append_def)
qed

section \<open>The reply of the server\<close>

lemma serve_parsed:
  assumes "data \<noteq> []" and "data \<noteq> ''exit''" and "parse data = Some x"
    and "detect_anomaly d x = Inr ((a, c), d')"
  shows "serve parse fmt d (data # rest) =
           (response fmt a c x # fst (serve parse fmt d' rest), snd (serve parse fmt d' rest))"
  using assms by (simp add: case_prod_unfold Let_def)

text \<open>
  Claim C7. For a payload that is neither empty nor \<^verbatim>\<open>exit\<close> and that parses to \<open>x\<close>, on
  which the detector returns \<open>(is_anomaly, concept_drift) = (a, c)\<close>, the server sends exactly
  one reply for it and goes on with the rest. When \<open>a\<close> and \<open>c\<close> are both true the reply is
  \<^verbatim>\<open>Anomaly detected: {value}\<close> and is no \<^verbatim>\<open>Concept drift detected: ...\<close> text; the reply
  is \<^verbatim>\<open>Concept drift detected: {value}\<close> only when \<open>a\<close> is false and \<open>c\<close> is true, and
  \<^verbatim>\<open>Data received: {value}\<close> only when both are false.
\<close>

theorem reply_priority:
  assumes "data \<noteq> []" and "data \<noteq> ''exit''" and "parse data = Some x"
    and "detect_anomaly d x = Inr ((a, c), d')"
  shows "\<exists>reply. fst (serve parse fmt d (data # rest)) = reply # fst (serve parse fmt d' rest)
           \<and> (a \<and> c \<longrightarrow> reply = ''Anomaly detected: '' @ fmt x
                  \<and> (\<forall>t. reply \<noteq> ''Concept drift detected: '' @ t))
           \<and> (a \<longrightarrow> reply = ''Anomaly detected: '' @ fmt x)
           \<and> (reply = ''Concept drift detected: '' @ fmt x \<longrightarrow> \<not> a \<and> c)
           \<and> (\<not> a \<and> c \<longrightarrow> reply = ''Concept drift detected: '' @ fmt x)
           \<and> (reply = ''Data received: '' @ fmt x \<longrightarrow> \<not> a \<and> \<not> c)
           \<and> (\<not> a \<and> \<not> c \<longrightarrow> reply = ''Data received: '' @ fmt x)"
proof -
  have "fst (serve parse fmt d (data # rest)) = response fmt a c x # fst (serve parse fmt d' rest)"
    using serve_parsed [of data parse x d a c d' fmt rest] assms by simp
  moreover have "a \<and> c \<longrightarrow> response fmt a c x = ''Anomaly detected: '' @ fmt x
      \<and> (\<forall>t. response fmt a c x \<noteq> ''Concept drift detected: '' @ t)"
    by (simp add: response_def)
  moreover have "a \<longrightarrow> response fmt a c x = ''Anomaly detected: '' @ fmt x"
    by (simp add: response_def)
  moreover have "response fmt a c x = ''Concept drift detected: '' @ fmt x \<longrightarrow> \<not> a \<and> c"
    by (cases a; cases c) (simp_all add: response_def)
  moreover have "\<not> a \<and> c \<longrightarrow> response fmt a c x = ''Concept drift detected: '' @ fmt x"
    by (simp add: response_def)
  moreover have "response fmt a c x = ''Data received: '' @ fmt x \<longrightarrow> \<not> a \<and> \<not> c"
    by (cases a; cases c) (simp_all add: response_def)
  moreover have "\<not> a \<and> \<not> c \<longrightarrow> response fmt a c x = ''Data received: '' @ fmt x"
    by (simp add: response_def)
  ultimately show ?thesis by blast
qed

theorem reply_priority_witness:
  "''1000'' \<noteq> [] \<and> ''1000'' \<noteq> ''exit''
   \<and> detect_anomaly
       \<lparr>adwin = \<lparr>delta = default_delta, bucket_row = [0], bucket_sizes = [2], total = 0,
                  variance = 0, width = 2\<rparr>,
        window = [0, 0], maxlen = 2, z_threshold = 1 / 2\<rparr> 1000 =
     Inr ((True, True),
        \<lparr>adwin = \<lparr>delta = default_delta, bucket_row = [1000], bucket_sizes = [1],
                   total = 1000, variance = 1000000, width = 1\<rparr>,
         window = [0, 1000], maxlen = 2, z_threshold = 1 / 2\<rparr>)
   \<and> fst (serve (\<lambda>t. if t = ''1000'' then Some 1000 else None) (\<lambda>x. ''1000.0'')
       \<lparr>adwin = \<lparr>delta = default_delta, bucket_row = [0], bucket_sizes = [2], total = 0,
                  variance = 0, width = 2\<rparr>,
        window = [0, 0], maxlen = 2, z_threshold = 1 / 2\<rparr> [''1000''])
     = [''Anomaly detected: 1000.0'']"
proof -
  let ?parse = "\<lambda>t. if t = ''1000'' then Some (1000::real) else None"
  let ?fmt = "\<lambda>x::real. ''1000.0''"
  let ?d = "\<lparr>adwin = \<lparr>delta = default_delta, bucket_row = [0], bucket_sizes = [2], total = 0,
                  variance = 0, width = 2\<rparr>,
        window = [0, 0], maxlen = 2, z_threshold = 1 / 2\<rparr>"
  let ?d' = "\<lparr>adwin = \<lparr>delta = default_delta, bucket_row = [1000], bucket_sizes = [1],
                   total = 1000, variance = 1000000, width = 1\<rparr>,
         window = [0, 1000], maxlen = 2, z_threshold = 1 / 2\<rparr>"
  have h: "''1000'' \<noteq> []" "''1000'' \<noteq> ''exit''" "?parse ''1000'' = Some 1000"
    by simp_all
  have e: "fst (serve ?parse ?fmt ?d' []) = []"
    by (simp only: serve.simps fst_conv)
  have a: "''Anomaly detected: '' @ ''1000.0'' = ''Anomaly detected: 1000.0''"
    by simp
  have "fst (serve ?parse ?fmt ?d [''1000'']) = [''Anomaly detected: 1000.0'']"
    using reply_priority [where parse = ?parse and fmt = ?fmt and rest = "[]",
      OF h example_both_flags]
  proof (elim exE conjE)
    fix reply
    assume r1: "fst (serve ?parse ?fmt ?d [''1000'']) = reply # fst (serve ?parse ?fmt ?d' [])"
      and r2: "True \<longrightarrow> reply = ''Anomaly detected: '' @ ''1000.0''"
    from r2 have "reply = ''Anomaly detected: 1000.0''" by (simp only: a simp_thms)
    with r1 e show ?thesis by (simp only:)
  qed
  with h(1,2) example_both_flags show ?thesis by (intro conjI)
qed

section \<open>The session loop\<close>

lemma serve_invalid:
  assumes "\<not> terminator data" and "parse data = None"
  shows "serve parse fmt d (data # rest) =
           (''Invalid data'' # fst (serve parse fmt d rest), snd (serve parse fmt d rest))"
  using assms by (simp add: terminator_def case_prod_unfold Let_def)

lemma serve_terminator:
  assumes "terminator data"
  shows "serve parse fmt d (data # rest) = ([], Closed)"
  using assms by (auto simp: terminator_def)

lemma serve_session:
  "detector_inv d \<Longrightarrow> 0 < maxlen d \<Longrightarrow>
     snd (serve parse fmt d ps) = (if \<exists>p\<in>set ps. terminator p then Closed else Waiting)
     \<and> length (fst (serve parse fmt d ps)) = length (takeWhile (\<lambda>p. \<not> terminator p) ps)
     \<and> (\<forall>k<length (takeWhile (\<lambda>p. \<not> terminator p) ps).
           parse (ps ! k) = None \<longrightarrow> fst (serve parse fmt d ps) ! k = ''Invalid data'')"
proof (induction ps arbitrary: d)
  case Nil
  then show ?case by simp
next
  case (Cons data rest)
  show ?case
  proof (cases "terminator data")
    case True
    from serve_terminator [OF True] have s: "serve parse fmt d (data # rest) = ([], Closed)" .
    show ?thesis unfolding s using True by simp
  next
    case nt: False
    then have ne: "data \<noteq> []" "data \<noteq> ''exit''" by (simp_all add: terminator_def)
    show ?thesis
    proof (cases "parse data")
      case None
      from serve_invalid [where parse = parse, OF nt None] have s: "serve parse fmt d (data # rest) =
          (''Invalid data'' # fst (serve parse fmt d rest), snd (serve parse fmt d rest))" .
      from Cons.IH [OF Cons.prems] show ?thesis
        unfolding s using nt None by (auto simp: nth_Cons split: nat.splits)
    next
      case (Some x)
      from detect_anomaly_total [OF Cons.prems, of x] obtain a c d' where
        r: "detect_anomaly d x = Inr ((a, c), d')" "detector_inv d'" "maxlen d' = maxlen d"
        by (metis surj_pair)
      from serve_parsed [where parse = parse, OF ne Some r(1)] have s: "serve parse fmt d (data # rest) =
          (response fmt a c x # fst (serve parse fmt d' rest), snd (serve parse fmt d' rest))" .
      from Cons.IH [OF r(2)] r(3) Cons.prems(2) show ?thesis
        unfolding s using nt Some by (auto simp: nth_Cons split: nat.splits)
    qed
  qed
qed

text \<open>
  Claim C8. A payload that is not empty, is not \<^verbatim>\<open>exit\<close> and fails to parse is answered with
  \<^verbatim>\<open>Invalid data\<close>, and the loop goes on with the next payload and the same detector. A session
  of \<^verbatim>\<open>start_server\<close> ends closed, with both sockets closed, exactly when an empty payload or
  \<^verbatim>\<open>exit\<close> is received; otherwise it has answered every payload, one reply each, and waits for
  the next one; it never ends by an exception.
\<close>

theorem session_ends_only_on_terminator:
  "(\<not> terminator data \<and> parse data = None \<longrightarrow>
      serve parse fmt d (data # rest) =
        (''Invalid data'' # fst (serve parse fmt d rest), snd (serve parse fmt d rest)))
   \<and> (terminator data \<longrightarrow> serve parse fmt d (data # rest) = ([], Closed))
   \<and> snd (start_server parse fmt payloads)
       = (if \<exists>p\<in>set payloads. terminator p then Closed else Waiting)
   \<and> length (fst (start_server parse fmt payloads))
       = length (takeWhile (\<lambda>p. \<not> terminator p) payloads)
   \<and> (\<forall>k<length (takeWhile (\<lambda>p. \<not> terminator p) payloads).
         parse (payloads ! k) = None \<longrightarrow>
           fst (start_server parse fmt payloads) ! k = ''Invalid data'')"
proof -
  have i: "detector_inv (new_detector 50 3)" by (rule detector_inv_new)
  have m: "0 < maxlen (new_detector 50 3)" by (simp add: new_detector_def)
  note s = serve_session [OF i m, of parse fmt payloads, folded start_server_def]
  have a: "\<not> terminator data \<and> parse data = None \<longrightarrow>
      serve parse fmt d (data # rest) =
        (''Invalid data'' # fst (serve parse fmt d rest), snd (serve parse fmt d rest))"
    using serve_invalid [of data parse fmt d rest] by blast
  have b: "terminator data \<longrightarrow> serve parse fmt d (data # rest) = ([], Closed)"
    using serve_terminator [of data parse fmt d rest] by blast
  from a b s show ?thesis by (intro conjI) blast+
qed

theorem session_ends_only_on_terminator_witness:
  "\<not> terminator ''not_a_number'' \<and> terminator ''exit''
   \<and> start_server (\<lambda>t. None) (\<lambda>x. ''0.0'') [''not_a_number'', ''not_a_number'', ''exit'']
       = ([''Invalid data'', ''Invalid data''], Closed)"
proof -
  let ?parse = "\<lambda>t::string. None :: real option"
  let ?fmt = "\<lambda>x::real. ''0.0''"
  let ?d = "new_detector 50 3"
  have n: "\<not> terminator ''not_a_number''" and e: "terminator ''exit''"
    by (simp_all add: terminator_def)
  have p: "\<not> terminator ''not_a_number'' \<and> ?parse ''not_a_number'' = None"
    using n by simp
  have 3: "serve ?parse ?fmt ?d [''exit''] = ([], Closed)"
    by (rule session_ends_only_on_terminator [of "''exit''" ?parse ?fmt ?d "[]" "[]",
          THEN conjunct2, THEN conjunct1, THEN mp, OF e])
  have 2: "serve ?parse ?fmt ?d [''not_a_number'', ''exit''] = ([''Invalid data''], Closed)"
    using session_ends_only_on_terminator [of "''not_a_number''" ?parse ?fmt ?d "[''exit'']" "[]",
          THEN conjunct1, THEN mp, OF p]
    by (simp only: 3 fst_conv snd_conv)
  have 1: "serve ?parse ?fmt ?d [''not_a_number'', ''not_a_number'', ''exit'']
      = ([''Invalid data'', ''Invalid data''], Closed)"
    using session_ends_only_on_terminator [of "''not_a_number''" ?parse ?fmt ?d
          "[''not_a_number'', ''exit'']" "[]", THEN conjunct1, THEN mp, OF p]
    by (simp only: 2 fst_conv snd_conv)
  from n e 1 show ?thesis by (simp only: start_server_def simp_thms)
qed

end
